theory Spec2Isabelle
  imports Complex_Main "HOL-Library.Word"
begin

unbundle bit_operations_syntax

section \<open>The asset pattern\<close>

text \<open>
  Both history engines compile the pattern \<^verbatim>\<open>\.(jpg|png|css|js|gif|ico)\<close> and ask
  \<^verbatim>\<open>assetRegexp.MatchString(req.URL)\<close> for every request. The pattern uses an escaped
  literal dot, a group and alternation of literal words only, so the regular expressions
  modelled here have exactly these constructors. A Go string is a sequence of bytes; the
  pattern is ASCII, hence matching is modelled on \<^typ>\<open>string\<close> byte by byte.
\<close>

datatype regexp = Eps | Lit char | Cat regexp regexp | Alt regexp regexp

text \<open>A literal word of the pattern, as the concatenation of its characters.\<close>

fun word_re :: "string \<Rightarrow> regexp" where
  "word_re [] = Eps"
| "word_re (c # cs) = Cat (Lit c) (word_re cs)"

text \<open>
  \<open>rmatch r s\<close> lists what is left of \<open>s\<close> after each way of matching \<open>r\<close> at the
  start of \<open>s\<close>; the empty list says that \<open>r\<close> does not match there.
\<close>

fun rmatch :: "regexp \<Rightarrow> string \<Rightarrow> string list" where
  "rmatch Eps s = [s]"
| "rmatch (Lit c) [] = []"
| "rmatch (Lit c) (d # s) = (if d = c then [s] else [])"
| "rmatch (Cat a b) s = concat (map (rmatch b) (rmatch a s))"
| "rmatch (Alt a b) s = rmatch a s @ rmatch b s"

text \<open>
  \<^verbatim>\<open>MatchString\<close> is not anchored: it reports whether the string contains any match,
  so every start position is tried.
\<close>

fun MatchString :: "regexp \<Rightarrow> string \<Rightarrow> bool" where
  "MatchString r [] = (rmatch r [] \<noteq> [])"
| "MatchString r (c # s) = (rmatch r (c # s) \<noteq> [] \<or> MatchString r s)"

definition assetRegexp :: regexp where
  "assetRegexp =
     Cat (Lit CHR ''.'')
       (Alt (word_re ''jpg'') (Alt (word_re ''png'') (Alt (word_re ''css'')
         (Alt (word_re ''js'') (Alt (word_re ''gif'') (word_re ''ico''))))))"


text \<open>
  The classification both \<^verbatim>\<open>process\<close> loops make inline: a request whose URL matches
  the pattern counts as an asset request (field \<^verbatim>\<open>Other\<close>), any other request as an
  application request (field \<^verbatim>\<open>App\<close>).
\<close>

definition isAsset :: "string \<Rightarrow> bool" where
  "isAsset url = MatchString assetRegexp url"

section \<open>What the code takes from Go's standard library\<close>

text \<open>
  Instants (\<^verbatim>\<open>time.Time\<close>) and durations are integers counting nanoseconds;
  \<^verbatim>\<open>t.After(u)\<close> is \<open>u < t\<close> and \<^verbatim>\<open>t.Before(u)\<close> is \<open>t < u\<close>. A \<^verbatim>\<open>net.IP\<close> is a
  byte slice, \<^verbatim>\<open>nil\<close> being the empty one. \<^verbatim>\<open>uint64\<close> counters are 64-bit words.
\<close>

type_synonym time = int
type_synonym netIP = "8 word list"
type_synonym uint64 = "64 word"

definition After :: "time \<Rightarrow> time \<Rightarrow> bool" where
  "After t u = (u < t)"

definition Before :: "time \<Rightarrow> time \<Rightarrow> bool" where
  "Before t u = (t < u)"

text \<open>
  \<^verbatim>\<open>t.Truncate(d)\<close> rounds \<open>t\<close> down to a multiple of \<open>d\<close> and returns \<open>t\<close> unchanged
  when \<open>d \<le> 0\<close>.
\<close>

definition Truncate :: "time \<Rightarrow> int \<Rightarrow> time" where
  "Truncate t d = (if d \<le> 0 then t else t - t mod d)"

text \<open>
  The text-level library functions are parameters of the model: \<^verbatim>\<open>net.ParseIP\<close>
  (\<^verbatim>\<open>nil\<close>, here \<open>[]\<close>, for a string that is no address), \<^verbatim>\<open>net.IP.String\<close>,
  \<^verbatim>\<open>strings.TrimSpace\<close>, and the rounding of a real number to the nearest \<^verbatim>\<open>float64\<close>,
  which the conversion \<^verbatim>\<open>float64(n)\<close> and the floating-point division both apply.
\<close>

record stdlib =
  ParseIP :: "string \<Rightarrow> netIP"
  IPString :: "netIP \<Rightarrow> string"
  TrimSpace :: "string \<Rightarrow> string"
  round64 :: "real \<Rightarrow> real"

text \<open>
  \<^verbatim>\<open>To16\<close> and \<^verbatim>\<open>To4\<close> convert between the 4-byte and the 16-byte form of an
  address and return \<^verbatim>\<open>nil\<close> for a slice of any other length. \<open>ipKey\<close> is the
  expression \<^verbatim>\<open>ip.To16().String()\<close>, the key under which both the histories and the
  blacklist file an address.
\<close>

definition v4InV6Prefix :: netIP where
  "v4InV6Prefix = [0, 0, 0, 0, 0, 0, 0, 0, 0, 0, 0xff, 0xff]"

definition To16 :: "netIP \<Rightarrow> netIP" where
  "To16 ip = (if length ip = 4 then v4InV6Prefix @ ip else if length ip = 16 then ip else [])"

definition To4 :: "netIP \<Rightarrow> netIP" where
  "To4 ip =
     (if length ip = 4 then ip
      else if length ip = 16 \<and> list_all (\<lambda>b. b = 0) (take 10 ip) \<and>
              ip ! 10 = 0xff \<and> ip ! 11 = 0xff
      then drop 12 ip
      else [])"

definition ipKey :: "stdlib \<Rightarrow> netIP \<Rightarrow> string" where
  "ipKey L ip = IPString L (To16 ip)"

text \<open>
  A \<^verbatim>\<open>net.IPNet\<close> as \<^verbatim>\<open>net.ParseCIDR\<close> returns it: the network number and the mask,
  both of 4 bytes for an IPv4 network and of 16 bytes for an IPv6 one.
  \<^verbatim>\<open>Contains\<close> first brings the address to 4 bytes when it is an IPv4 address, then
  compares the masked bytes; addresses of the other family are never contained.
\<close>

record IPNet =
  NetIP :: netIP
  Mask :: netIP

definition Contains :: "IPNet \<Rightarrow> netIP \<Rightarrow> bool" where
  "Contains n ip =
     (let x = (if To4 ip \<noteq> [] then To4 ip else ip)
      in length x = length (NetIP n) \<and>
         map2 (AND) (NetIP n) (Mask n) = map2 (AND) x (Mask n))"

text \<open>
  An IEEE double is a finite number, an infinity or not-a-number; \<^verbatim>\<open>-max-ratio\<close> is
  parsed by \<^verbatim>\<open>strconv.ParseFloat\<close> and can be any of them. \<open>fgt\<close> is the comparison
  \<^verbatim>\<open>>\<close> on doubles, false whenever an operand is not a number.
\<close>

datatype f64 = Num real | PInf | NInf | NaN

fun fgt :: "f64 \<Rightarrow> f64 \<Rightarrow> bool" where
  "fgt NaN y = False"
| "fgt x NaN = False"
| "fgt (Num a) (Num b) = (b < a)"
| "fgt (Num a) PInf = False"
| "fgt (Num a) NInf = True"
| "fgt PInf PInf = False"
| "fgt PInf y = True"
| "fgt NInf y = False"

definition float64 :: "stdlib \<Rightarrow> uint64 \<Rightarrow> real" where
  "float64 L n = round64 L (real (unat n))"

definition fdiv :: "stdlib \<Rightarrow> real \<Rightarrow> real \<Rightarrow> f64" where
  "fdiv L a b =
     (if b = 0 then (if a = 0 then NaN else if 0 < a then PInf else NInf)
      else Num (round64 L (a / b)))"

text \<open>
  \<^verbatim>\<open>strings.Split(s, sep)\<close> for a separator of one byte: a string with \<open>n\<close>
  separators has \<open>n + 1\<close> fields, so the empty string has one (empty) field.
\<close>

fun Split :: "string \<Rightarrow> char \<Rightarrow> string list" where
  "Split [] sep = [[]]"
| "Split (c # s) sep =
     (if c = sep then [] # Split s sep
      else (case Split s sep of [] \<Rightarrow> [[c]] | f # fs \<Rightarrow> (c # f) # fs))"

section \<open>Private networks (ip.go)\<close>

text \<open>
  \<^verbatim>\<open>privateNetworks\<close>, each entry as \<^verbatim>\<open>net.ParseCIDR\<close> parses it, in the order of the
  table: 127.0.0.0/8, 10.0.0.0/8, 172.16.0.0/12, 192.168.0.0/16, ::1/128, fe80::/10 and
  fc00::/7.
\<close>

definition privateNetworks :: "IPNet list" where
  "privateNetworks =
     [\<lparr>NetIP = [127, 0, 0, 0], Mask = [255, 0, 0, 0]\<rparr>,
      \<lparr>NetIP = [10, 0, 0, 0], Mask = [255, 0, 0, 0]\<rparr>,
      \<lparr>NetIP = [172, 16, 0, 0], Mask = [255, 240, 0, 0]\<rparr>,
      \<lparr>NetIP = [192, 168, 0, 0], Mask = [255, 255, 0, 0]\<rparr>,
      \<lparr>NetIP = [0, 0, 0, 0, 0, 0, 0, 0, 0, 0, 0, 0, 0, 0, 0, 1],
       Mask = [255, 255, 255, 255, 255, 255, 255, 255, 255, 255, 255, 255, 255, 255, 255, 255]\<rparr>,
      \<lparr>NetIP = [0xfe, 0x80, 0, 0, 0, 0, 0, 0, 0, 0, 0, 0, 0, 0, 0, 0],
       Mask = [255, 192, 0, 0, 0, 0, 0, 0, 0, 0, 0, 0, 0, 0, 0, 0]\<rparr>,
      \<lparr>NetIP = [0xfc, 0, 0, 0, 0, 0, 0, 0, 0, 0, 0, 0, 0, 0, 0, 0],
       Mask = [254, 0, 0, 0, 0, 0, 0, 0, 0, 0, 0, 0, 0, 0, 0, 0]\<rparr>]"

text \<open>\<^verbatim>\<open>NewIP\<close> and \<^verbatim>\<open>IsPrivate\<close>: the first network that contains the address decides.\<close>

definition NewIP :: "IPNet list" where
  "NewIP = privateNetworks"

fun IsPrivate :: "IPNet list \<Rightarrow> netIP \<Rightarrow> bool" where
  "IsPrivate [] ip = False"
| "IsPrivate (n # ns) ip = (if Contains n ip then True else IsPrivate ns ip)"

section \<open>Counters per time slot\<close>

text \<open>
  \<^verbatim>\<open>IPHistoryItem\<close> and \<^verbatim>\<open>HistoryItem\<close> are the same struct, field for field, and so
  are the two \<^verbatim>\<open>Request\<close> declarations; one record stands for both. A
  \<^verbatim>\<open>container/list\<close> of items is a list whose head is \<^verbatim>\<open>Front()\<close> and whose last
  element is \<^verbatim>\<open>Back()\<close>.
\<close>

record HistoryItem =
  Timestamp :: time
  Count :: uint64
  App :: uint64
  Other :: uint64

record Request =
  URL :: string
  IP :: netIP

record HistoryOptions =
  TimestampFormat :: string
  TimeSlot :: int
  Window :: int
  Interval :: int
  MaxRequests :: uint64
  MaxRatio :: f64

record IPHistoryOptions = HistoryOptions +
  ExpireInterval :: int
  BlacklistTTL :: int

text \<open>
  The body of \<^verbatim>\<open>process\<close> once the list of the address is at hand: a fresh item for
  the current slot is pushed to the front unless the front item already carries that
  slot; then the front item counts the request. \<^verbatim>\<open>++\<close> on \<^verbatim>\<open>uint64\<close> wraps around.
\<close>

definition newItem :: "time \<Rightarrow> HistoryItem" where
  "newItem slot = \<lparr>Timestamp = slot, Count = 0, App = 0, Other = 0\<rparr>"

definition countRequest :: "string \<Rightarrow> HistoryItem \<Rightarrow> HistoryItem" where
  "countRequest url hi =
     (if isAsset url then hi\<lparr>Count := Count hi + 1, Other := Other hi + 1\<rparr>
      else hi\<lparr>Count := Count hi + 1, App := App hi + 1\<rparr>)"

definition pushRequest :: "time \<Rightarrow> string \<Rightarrow> HistoryItem list \<Rightarrow> HistoryItem list" where
  "pushRequest slot url l =
     (case l of
        [] \<Rightarrow> [countRequest url (newItem slot)]
      | front # rest \<Rightarrow>
          if Timestamp front \<noteq> slot then countRequest url (newItem slot) # l
          else countRequest url front # rest)"

text \<open>
  The loop labelled \<^verbatim>\<open>INNER\<close>: items are removed from the back for as long as the back
  item is not after the cutoff; the loop stops at the first back item that is.
\<close>

definition expireOld :: "time \<Rightarrow> HistoryItem list \<Rightarrow> HistoryItem list" where
  "expireOld cutoff l = rev (dropWhile (\<lambda>hi. \<not> After (Timestamp hi) cutoff) (rev l))"

text \<open>The loop that counts requests, from the front, with its two accumulators.\<close>

fun sumRequests :: "uint64 \<Rightarrow> uint64 \<Rightarrow> HistoryItem list \<Rightarrow> uint64 \<times> uint64" where
  "sumRequests tot app [] = (tot, app)"
| "sumRequests tot app (hi # l) = sumRequests (tot + Count hi) (app + App hi) l"

text \<open>
  The condition under which an address is blacklisted. Go's \<^verbatim>\<open>&&\<close> does not evaluate
  the division when the first comparison fails; the division is total here, so the
  conjunction says the same.
\<close>

definition blockCondition :: "stdlib \<Rightarrow> 'a HistoryOptions_scheme \<Rightarrow> uint64 \<Rightarrow> uint64 \<Rightarrow> bool" where
  "blockCondition L opts tot app \<longleftrightarrow>
     MaxRequests opts < app \<and> fgt (fdiv L (float64 L tot) (float64 L app)) (MaxRatio opts)"


section \<open>The blacklist with a time to live\<close>

text \<open>
  The struct \<^verbatim>\<open>Blacklist\<close>: \<open>bl_data\<close> is the hash map \<^verbatim>\<open>data\<close> (its values are
  always \<^verbatim>\<open>true\<close>) and \<open>expiry\<close> the singly linked list, index 0 first, to which
  \<^verbatim>\<open>Add\<close> appends. Mutexes and the context are left out: every operation is
  modelled as running alone, at the instant \<open>now\<close> that its \<^verbatim>\<open>time.Now()\<close> reads.
  Fields that several structs name alike carry a prefix here: \<open>bl_\<close> for
  \<^verbatim>\<open>Blacklist\<close>, \<open>ih_\<close> for \<^verbatim>\<open>IPHistory\<close>, \<open>h_\<close> for \<^verbatim>\<open>History\<close>.
\<close>

record blacklistIP =
  bip_IP :: string
  Expires :: time

record Blacklist =
  ttl :: int
  expireInterval :: int
  bl_data :: "string \<rightharpoonup> bool"
  expiry :: "blacklistIP list"

definition NewBlacklist :: "int \<Rightarrow> int \<Rightarrow> Blacklist" where
  "NewBlacklist t e = \<lparr>ttl = t, expireInterval = e, bl_data = Map.empty, expiry = []\<rparr>"

definition Blacklist_Set :: "stdlib \<Rightarrow> time \<Rightarrow> netIP \<Rightarrow> Blacklist \<Rightarrow> Blacklist" where
  "Blacklist_Set L now ip bl =
     (let ipstr = ipKey L ip
      in if bl_data bl ipstr \<noteq> None then bl
         else bl\<lparr>bl_data := (bl_data bl)(ipstr \<mapsto> True),
                 expiry := expiry bl @ [\<lparr>bip_IP = ipstr, Expires = now + ttl bl\<rparr>]\<rparr>)"

definition Blacklist_Size :: "Blacklist \<Rightarrow> nat" where
  "Blacklist_Size bl = card (dom (bl_data bl))"

definition Blacklist_IsBlacklisted :: "stdlib \<Rightarrow> Blacklist \<Rightarrow> netIP \<Rightarrow> bool" where
  "Blacklist_IsBlacklisted L bl ip = (bl_data bl (ipKey L ip) \<noteq> None)"

text \<open>
  The loop of \<^verbatim>\<open>expire\<close>: while the first entry of the expiry list expired before
  \<open>now\<close>, it is removed from the list and its address from the map; the loop ends at the
  first entry that has not expired, or when the list is empty.
\<close>

fun expireEntries ::
  "time \<Rightarrow> (string \<rightharpoonup> bool) \<Rightarrow> blacklistIP list \<Rightarrow> (string \<rightharpoonup> bool) \<times> blacklistIP list" where
  "expireEntries now d [] = (d, [])"
| "expireEntries now d (blip # rest) =
     (if Before (Expires blip) now then expireEntries now (d(bip_IP blip := None)) rest
      else (d, blip # rest))"

definition Blacklist_expire :: "time \<Rightarrow> Blacklist \<Rightarrow> Blacklist" where
  "Blacklist_expire now bl =
     (case expireEntries now (bl_data bl) (expiry bl) of
        (d, e) \<Rightarrow> bl\<lparr>bl_data := d, expiry := e\<rparr>)"

text \<open>
  What happens to a blacklist over time: calls of \<^verbatim>\<open>Set\<close> and the sweeps that
  \<^verbatim>\<open>expireLoop\<close> starts, each with the instant at which it runs.
\<close>

datatype blEvent = SetAt time netIP | ExpireAt time

fun eventTime :: "blEvent \<Rightarrow> time" where
  "eventTime (SetAt t ip) = t"
| "eventTime (ExpireAt t) = t"

fun blStep :: "stdlib \<Rightarrow> Blacklist \<Rightarrow> blEvent \<Rightarrow> Blacklist" where
  "blStep L bl (SetAt t ip) = Blacklist_Set L t ip bl"
| "blStep L bl (ExpireAt t) = Blacklist_expire t bl"

definition blRun :: "stdlib \<Rightarrow> Blacklist \<Rightarrow> blEvent list \<Rightarrow> Blacklist" where
  "blRun L bl evs = foldl (blStep L) bl evs"

text \<open>
  \<^verbatim>\<open>expireLoop\<close> arms \<^verbatim>\<open>time.After(bl.expireInterval)\<close>, calls \<^verbatim>\<open>expire\<close> when the
  timer has fired, and starts over when \<^verbatim>\<open>expire\<close> has returned. A timer fires at
  the end of its interval or later, and the sweep takes time, so the instant that the
  \<open>k\<close>-th call of \<^verbatim>\<open>expire\<close> reads is \<open>expireInterval\<close> after the one before (after
  the start of the loop, for the first) plus a delay that is not negative.
  \<open>expireLoop start bl delays\<close> lists these instants for the given delays.
  \<open>sweepsOf evs\<close> lists the instants of the sweeps among the events \<open>evs\<close>, and
  \<open>blAt L bl evs t\<close> is the blacklist at the instant \<open>t\<close> of a run that starts with
  \<open>bl\<close> and whose events \<open>evs\<close> are in the order of their instants.
\<close>

fun expireLoop :: "time \<Rightarrow> Blacklist \<Rightarrow> int list \<Rightarrow> time list" where
  "expireLoop start bl [] = []"
| "expireLoop start bl (delay # delays) =
     (start + expireInterval bl + delay) #
     expireLoop (start + expireInterval bl + delay) bl delays"

fun sweepsOf :: "blEvent list \<Rightarrow> time list" where
  "sweepsOf [] = []"
| "sweepsOf (ExpireAt t # evs) = t # sweepsOf evs"
| "sweepsOf (SetAt t ip # evs) = sweepsOf evs"

definition blAt :: "stdlib \<Rightarrow> Blacklist \<Rightarrow> blEvent list \<Rightarrow> time \<Rightarrow> Blacklist" where
  "blAt L bl evs t = blRun L bl (takeWhile (\<lambda>ev. eventTime ev \<le> t) evs)"

section \<open>The history with a blacklist that expires (IPHistory)\<close>

text \<open>
  \<open>ih_data\<close> is the map \<^verbatim>\<open>data\<close> from the text of an address to its list of items,
  \<open>ih_updatedIPs\<close> the key set of the map \<^verbatim>\<open>updatedIPs\<close> (whose values are always
  \<^verbatim>\<open>true\<close>). The goroutines are modelled one step at a time: one received request, one
  tick of \<^verbatim>\<open>calculate\<close>, one round of \<^verbatim>\<open>expire\<close>, each running alone as the mutex
  \<^verbatim>\<open>h.mutex\<close> makes it.
\<close>

record IPHistory =
  ih_options :: IPHistoryOptions
  ih_data :: "string \<rightharpoonup> HistoryItem list"
  ih_blacklist :: Blacklist
  ih_currentSlot :: time
  ih_updatedIPs :: "string set"

definition NewIPHistory :: "IPHistoryOptions \<Rightarrow> IPHistory" where
  "NewIPHistory opts =
     \<lparr>ih_options = opts, ih_data = Map.empty,
      ih_blacklist = NewBlacklist (BlacklistTTL opts) (ExpireInterval opts),
      ih_currentSlot = 0, ih_updatedIPs = {}\<rparr>"

definition IPHistory_setTimestamp :: "time \<Rightarrow> IPHistory \<Rightarrow> IPHistory" where
  "IPHistory_setTimestamp now h = h\<lparr>ih_currentSlot := Truncate now (TimeSlot (ih_options h))\<rparr>"

definition IPHistory_IsBlacklisted :: "stdlib \<Rightarrow> IPHistory \<Rightarrow> netIP \<Rightarrow> bool" where
  "IPHistory_IsBlacklisted L h ip = Blacklist_IsBlacklisted L (ih_blacklist h) ip"

text \<open>One request received from the channel by \<^verbatim>\<open>process\<close>.\<close>

definition IPHistory_process :: "stdlib \<Rightarrow> Request \<Rightarrow> IPHistory \<Rightarrow> IPHistory" where
  "IPHistory_process L req h =
     (let ipstr = ipKey L (IP req);
          l = (case ih_data h ipstr of None \<Rightarrow> [] | Some l \<Rightarrow> l)
      in h\<lparr>ih_updatedIPs := insert ipstr (ih_updatedIPs h),
           ih_data := (ih_data h)(ipstr \<mapsto> pushRequest (ih_currentSlot h) (URL req) l)\<rparr>)"

text \<open>
  One round of \<^verbatim>\<open>expire\<close>. The cutoff is computed at the top of the loop body, at the
  instant \<open>t0\<close>, before the \<^verbatim>\<open>select\<close> waits for \<^verbatim>\<open>time.After(expireInterval)\<close>; the
  sweep itself therefore runs no earlier than \<open>sweepTime t0 h\<close>, with the cutoff of the
  instant \<open>t0\<close>. The order in which \<^verbatim>\<open>range h.data\<close> visits the keys is not
  specified by Go; \<open>keys\<close> is the order of this round.
\<close>

definition expireIP ::
  "time \<Rightarrow> string \<Rightarrow> (string \<rightharpoonup> HistoryItem list) \<Rightarrow> (string \<rightharpoonup> HistoryItem list)" where
  "expireIP cutoff ip d =
     (case d ip of
        None \<Rightarrow> d
      | Some counts \<Rightarrow>
          (let counts' = expireOld cutoff counts
           in if length counts' \<le> 0 then d(ip := None) else d(ip \<mapsto> counts')))"

definition IPHistory_expire :: "time \<Rightarrow> string list \<Rightarrow> IPHistory \<Rightarrow> IPHistory" where
  "IPHistory_expire t0 keys h =
     (let cutoff = t0 + (- 1) * Window (ih_options h)
      in h\<lparr>ih_data := fold (expireIP cutoff) keys (ih_data h)\<rparr>)"

definition sweepTime :: "time \<Rightarrow> IPHistory \<Rightarrow> time" where
  "sweepTime t0 h = t0 + ExpireInterval (ih_options h)"

text \<open>
  One tick of \<^verbatim>\<open>calculate\<close>, at the instant \<open>now\<close> at which the timer fires: the cutoff
  is computed, the set of updated addresses is taken and replaced by an empty one, and
  each updated address, in the order \<open>keys\<close> of this tick's \<^verbatim>\<open>range updated\<close>, is
  trimmed, counted and, when the condition holds, handed to \<^verbatim>\<open>Set\<close> after
  \<^verbatim>\<open>net.ParseIP\<close> has read its text back.
\<close>

definition calculateIP :: "stdlib \<Rightarrow> time \<Rightarrow> time \<Rightarrow> string \<Rightarrow> IPHistory \<Rightarrow> IPHistory" where
  "calculateIP L now cutoff ip h =
     (case ih_data h ip of
        None \<Rightarrow> h
      | Some counts \<Rightarrow>
          (let counts' = expireOld cutoff counts;
               h1 = (if length counts' \<le> 0 then h\<lparr>ih_data := (ih_data h)(ip := None)\<rparr>
                     else h\<lparr>ih_data := (ih_data h)(ip \<mapsto> counts')\<rparr>)
           in case sumRequests 0 0 counts' of
                (tot, app) \<Rightarrow>
                  if blockCondition L (ih_options h) tot app
                  then h1\<lparr>ih_blacklist := Blacklist_Set L now (ParseIP L ip) (ih_blacklist h1)\<rparr>
                  else h1))"

definition IPHistory_calculate :: "stdlib \<Rightarrow> time \<Rightarrow> string list \<Rightarrow> IPHistory \<Rightarrow> IPHistory" where
  "IPHistory_calculate L now keys h =
     (let cutoff = now + (- 1) * Window (ih_options h)
      in fold (calculateIP L now cutoff) keys (h\<lparr>ih_updatedIPs := {}\<rparr>))"

text \<open>
  What happens to an \<^verbatim>\<open>IPHistory\<close> over time: a request received by \<^verbatim>\<open>process\<close>, the
  clock goroutine storing a new current slot, a tick of \<^verbatim>\<open>calculate\<close>, a round of
  \<^verbatim>\<open>expire\<close>. A run is a sequence of such steps from some history.
\<close>

datatype ihEvent =
    Receive Request
  | Clock time
  | Tick time "string list"
  | Sweep time "string list"

fun ihStep :: "stdlib \<Rightarrow> IPHistory \<Rightarrow> ihEvent \<Rightarrow> IPHistory" where
  "ihStep L h (Receive req) = IPHistory_process L req h"
| "ihStep L h (Clock now) = IPHistory_setTimestamp now h"
| "ihStep L h (Tick now keys) = IPHistory_calculate L now keys h"
| "ihStep L h (Sweep t0 keys) = IPHistory_expire t0 keys h"

definition ihRun :: "stdlib \<Rightarrow> IPHistory \<Rightarrow> ihEvent list \<Rightarrow> IPHistory" where
  "ihRun L h evs = foldl (ihStep L) h evs"

fun isReceive :: "ihEvent \<Rightarrow> bool" where
  "isReceive (Receive req) = True"
| "isReceive (Clock now) = False"
| "isReceive (Tick now keys) = False"
| "isReceive (Sweep t0 keys) = False"

fun clockTimes :: "ihEvent list \<Rightarrow> time list" where
  "clockTimes [] = []"
| "clockTimes (Clock now # evs) = now # clockTimes evs"
| "clockTimes (ev # evs) = clockTimes evs"

section \<open>The history the command constructs (History)\<close>

text \<open>
  Here the blacklist is the plain map \<^verbatim>\<open>type Blacklist map[string]bool\<close>, held through a
  pointer. A Go map value is either \<^verbatim>\<open>nil\<close> or a table: reading a key of a nil map
  finds nothing, and assigning to an entry of a nil map panics. \<^verbatim>\<open>new(Blacklist)\<close>
  allocates a pointer to the zero value of the map type, which is the nil map; the code
  never calls \<^verbatim>\<open>make\<close>. So the map is \<open>None\<close> when nil and \<open>Some t\<close> for a table
  \<open>t\<close>, and the assignment \<^verbatim>\<open>(*blacklist)[ip] = true\<close> returns the panic or the new
  map.
\<close>

datatype goPanic = AssignToNilMap

type_synonym BlacklistMap = "(string \<rightharpoonup> bool) option"

definition mapHas :: "BlacklistMap \<Rightarrow> string \<Rightarrow> bool" where
  "mapHas m k = (case m of None \<Rightarrow> False | Some t \<Rightarrow> t k \<noteq> None)"

definition mapAssign :: "BlacklistMap \<Rightarrow> string \<Rightarrow> goPanic + BlacklistMap" where
  "mapAssign m k = (case m of None \<Rightarrow> Inl AssignToNilMap | Some t \<Rightarrow> Inr (Some (t(k \<mapsto> True))))"

record History =
  h_options :: HistoryOptions
  h_data :: "string \<rightharpoonup> HistoryItem list"
  h_blacklist :: BlacklistMap
  h_currentSlot :: time

definition NewHistory :: "HistoryOptions \<Rightarrow> History" where
  "NewHistory opts =
     \<lparr>h_options = opts, h_data = Map.empty, h_blacklist = None, h_currentSlot = 0\<rparr>"

definition History_IsBlacklisted :: "History \<Rightarrow> string \<Rightarrow> bool" where
  "History_IsBlacklisted h ip = mapHas (h_blacklist h) ip"

text \<open>
  A tick of \<^verbatim>\<open>calculate\<close> at the instant \<open>now\<close>: the local variable \<^verbatim>\<open>blacklist\<close>
  starts as \<^verbatim>\<open>new(Blacklist)\<close>; every key of \<^verbatim>\<open>h.data\<close> (in the order \<open>keys\<close> of
  this tick's \<^verbatim>\<open>range\<close>) is trimmed and counted, and entered into \<^verbatim>\<open>blacklist\<close> when
  the condition holds; at the end the new map is stored in place of the old one. A panic
  ends the tick, and with it the program.
\<close>

definition historyIP ::
  "stdlib \<Rightarrow> HistoryOptions \<Rightarrow> time \<Rightarrow> string \<Rightarrow>
   (string \<rightharpoonup> HistoryItem list) \<times> BlacklistMap \<Rightarrow>
   goPanic + (string \<rightharpoonup> HistoryItem list) \<times> BlacklistMap" where
  "historyIP L opts cutoff ip st =
     (case st of
        (d, blacklist) \<Rightarrow>
          (case d ip of
             None \<Rightarrow> Inr (d, blacklist)
           | Some counts \<Rightarrow>
               (let counts' = expireOld cutoff counts;
                    d1 = (if length counts' \<le> 0 then d(ip := None) else d(ip \<mapsto> counts'))
                in case sumRequests 0 0 counts' of
                     (tot, app) \<Rightarrow>
                       if blockCondition L opts tot app
                       then (case mapAssign blacklist ip of
                               Inl p \<Rightarrow> Inl p
                             | Inr blacklist' \<Rightarrow> Inr (d1, blacklist'))
                       else Inr (d1, blacklist))))"

fun historyLoop ::
  "stdlib \<Rightarrow> HistoryOptions \<Rightarrow> time \<Rightarrow> string list \<Rightarrow>
   (string \<rightharpoonup> HistoryItem list) \<times> BlacklistMap \<Rightarrow>
   goPanic + (string \<rightharpoonup> HistoryItem list) \<times> BlacklistMap" where
  "historyLoop L opts cutoff [] st = Inr st"
| "historyLoop L opts cutoff (ip # keys) st =
     (case historyIP L opts cutoff ip st of
        Inl p \<Rightarrow> Inl p
      | Inr st' \<Rightarrow> historyLoop L opts cutoff keys st')"

definition History_calculate ::
  "stdlib \<Rightarrow> time \<Rightarrow> string list \<Rightarrow> History \<Rightarrow> goPanic + History" where
  "History_calculate L now keys h =
     (let cutoff = now + (- 1) * Window (h_options h)
      in case historyLoop L (h_options h) cutoff keys (h_data h, None) of
           Inl p \<Rightarrow> Inl p
         | Inr (d, blacklist) \<Rightarrow> Inr (h\<lparr>h_data := d, h_blacklist := blacklist\<rparr>))"

section \<open>The command (cmd/botdetect/main.go)\<close>

text \<open>
  The body of the loop over the lines of standard input. It returns what is written to
  standard output and the requests sent on \<^verbatim>\<open>history.RequestChannel()\<close>. The body
  reads the fields 0 and 1 only, looks each candidate up with \<^verbatim>\<open>IsBlacklisted\<close>, and
  has no statement that sends on the channel, so the second component is empty on both
  paths.
\<close>

definition ok :: string where
  "ok = ''OK''"

definition block :: string where
  "block = ''BLOCK''"

definition newline :: string where
  "newline = [CHR 0x0A]"

definition parseIP :: "stdlib \<Rightarrow> string \<Rightarrow> netIP" where
  "parseIP L s = To16 (ParseIP L s)"

definition candidate :: "stdlib \<Rightarrow> IPNet list \<Rightarrow> string \<Rightarrow> string list" where
  "candidate L privIP s =
     (let parsedIP = parseIP L s
      in if parsedIP \<noteq> [] \<and> \<not> IsPrivate privIP parsedIP then [IPString L parsedIP] else [])"

fun decide :: "History \<Rightarrow> string list \<Rightarrow> string" where
  "decide history [] = ok"
| "decide history (ip # ips) =
     (if History_IsBlacklisted history ip then block else decide history ips)"

definition main_line :: "stdlib \<Rightarrow> IPNet list \<Rightarrow> History \<Rightarrow> string \<Rightarrow> string \<times> Request list" where
  "main_line L privIP history line =
     (let fields = Split line CHR ''|''
      in if length fields < 2 then (ok @ newline, [])
         else
           (let remote = fields ! 0;
                xff = fields ! 1;
                ips = candidate L privIP remote @
                      concat (map (\<lambda>x. candidate L privIP (TrimSpace L x)) (Split xff CHR '',''))
            in (decide history ips @ newline, [])))"




section \<open>Auxiliary notions for the statements\<close>

text \<open>
  \<open>oneSlot h key c a b\<close>: the address \<open>key\<close> either has no list and the three counts
  are zero, or its list is a single item for the current slot with these counts.
\<close>

definition oneSlot :: "IPHistory \<Rightarrow> string \<Rightarrow> uint64 \<Rightarrow> uint64 \<Rightarrow> uint64 \<Rightarrow> bool" where
  "oneSlot h key c a b \<longleftrightarrow>
     (ih_data h key = None \<and> c = 0 \<and> a = 0 \<and> b = 0) \<or>
     ih_data h key = Some [\<lparr>Timestamp = ih_currentSlot h, Count = c, App = a, Other = b\<rparr>]"

definition appOf :: "stdlib \<Rightarrow> string \<Rightarrow> Request list \<Rightarrow> nat" where
  "appOf L key reqs = length (filter (\<lambda>r. ipKey L (IP r) = key \<and> \<not> isAsset (URL r)) reqs)"

definition assetOf :: "stdlib \<Rightarrow> string \<Rightarrow> Request list \<Rightarrow> nat" where
  "assetOf L key reqs = length (filter (\<lambda>r. ipKey L (IP r) = key \<and> isAsset (URL r)) reqs)"

text \<open>
  \<open>flagged L opts cutoff counts\<close>: trimmed at \<open>cutoff\<close>, the list has sums of \<^verbatim>\<open>Count\<close>
  and of \<^verbatim>\<open>App\<close> that satisfy the condition for blacklisting.
\<close>

definition flagged :: "stdlib \<Rightarrow> 'a HistoryOptions_scheme \<Rightarrow> time \<Rightarrow> HistoryItem list \<Rightarrow> bool" where
  "flagged L opts cutoff counts \<longleftrightarrow>
     blockCondition L opts (sum_list (map Count (expireOld cutoff counts)))
       (sum_list (map App (expireOld cutoff counts)))"


text \<open>
  \<open>slotOrder l\<close>: the items are in the order of their slots, the newest at the front.
  \<open>countsOK k l\<close>: in every item \<^verbatim>\<open>Count\<close> is the sum of \<^verbatim>\<open>App\<close> and \<^verbatim>\<open>Other\<close> as
  numbers, and the items together count at most \<open>k\<close> requests.
\<close>

definition slotOrder :: "HistoryItem list \<Rightarrow> bool" where
  "slotOrder l = sorted_wrt (\<lambda>a b. Timestamp b < Timestamp a) l"

definition countsOK :: "nat \<Rightarrow> HistoryItem list \<Rightarrow> bool" where
  "countsOK k l \<longleftrightarrow>
     list_all (\<lambda>hi. unat (Count hi) = unat (App hi) + unat (Other hi)) l \<and>
     sum_list (map (\<lambda>hi. unat (Count hi)) l) \<le> k"

definition dataOK :: "nat \<Rightarrow> IPHistory \<Rightarrow> bool" where
  "dataOK k h \<longleftrightarrow> (\<forall>key l. ih_data h key = Some l \<longrightarrow> countsOK k l)"

text \<open>
  \<open>slotsOK h\<close>: every list of the history is in slot order and has no item of a slot
  later than the current one.
\<close>

definition slotsOK :: "IPHistory \<Rightarrow> bool" where
  "slotsOK h \<longleftrightarrow>
     (\<forall>key l. ih_data h key = Some l \<longrightarrow>
        slotOrder l \<and> list_all (\<lambda>hi. Timestamp hi \<le> ih_currentSlot h) l)"

text \<open>
  \<open>blInv T bl\<close>, for a blacklist whose operations so far ran at instants up to \<open>T\<close>:
  the expiry list has one entry for each key of the map and no other, its expiry
  instants do not decrease along the list, and none is later than \<open>T + ttl\<close>.
  \<open>noSetAfter L ip t ev\<close>: the event \<open>ev\<close> is not a call of \<^verbatim>\<open>Set\<close> for the address
  \<open>ip\<close> later than \<open>t\<close>.
\<close>

definition blInv :: "time \<Rightarrow> Blacklist \<Rightarrow> bool" where
  "blInv T bl \<longleftrightarrow>
     distinct (map bip_IP (expiry bl)) \<and>
     dom (bl_data bl) = bip_IP ` set (expiry bl) \<and>
     sorted (map Expires (expiry bl)) \<and>
     list_all (\<lambda>e. Expires e \<le> T + ttl bl) (expiry bl)"

fun noSetAfter :: "stdlib \<Rightarrow> netIP \<Rightarrow> time \<Rightarrow> blEvent \<Rightarrow> bool" where
  "noSetAfter L ip t (SetAt t' ip') = (ipKey L ip' = ipKey L ip \<longrightarrow> t' \<le> t)"
| "noSetAfter L ip t (ExpireAt t') = True"

section \<open>An instance of the library for the examples\<close>

text \<open>
  The examples run the model on a small instance of the library parameters: it reads and
  prints four addresses, trims blanks, and rounds nothing. Durations in the examples are
  small numbers rather than counts of nanoseconds.
\<close>

definition exampleLib :: stdlib where
  "exampleLib =
     \<lparr>ParseIP = (\<lambda>s. if s = ''8.8.8.8'' then [8, 8, 8, 8]
                     else if s = ''1.1.1.1'' then [1, 1, 1, 1]
                     else if s = ''192.168.1.1'' then [192, 168, 1, 1]
                     else if s = ''9.9.9.9'' then [9, 9, 9, 9]
                     else []),
      IPString = (\<lambda>ip. if To16 ip = v4InV6Prefix @ [8, 8, 8, 8] then ''8.8.8.8''
                       else if To16 ip = v4InV6Prefix @ [1, 1, 1, 1] then ''1.1.1.1''
                       else if To16 ip = v4InV6Prefix @ [192, 168, 1, 1] then ''192.168.1.1''
                       else if To16 ip = v4InV6Prefix @ [9, 9, 9, 9] then ''9.9.9.9''
                       else ''<nil>''),
      TrimSpace = (\<lambda>s. rev (dropWhile (\<lambda>c. c = CHR '' '') (rev (dropWhile (\<lambda>c. c = CHR '' '') s)))),
      round64 = (\<lambda>x. x)\<rparr>"

definition exampleOptions :: IPHistoryOptions where
  "exampleOptions =
     \<lparr>TimestampFormat = ''15:04'', TimeSlot = 60, Window = 3600, Interval = 5,
      MaxRequests = 30, MaxRatio = Num 0.85, ExpireInterval = 10, BlacklistTTL = 50\<rparr>"

definition exampleRequests :: "Request list" where
  "exampleRequests =
     [\<lparr>URL = ''/index.html'', IP = [8, 8, 8, 8]\<rparr>,
      \<lparr>URL = ''/logo.png'', IP = [8, 8, 8, 8]\<rparr>,
      \<lparr>URL = ''/'', IP = [1, 1, 1, 1]\<rparr>,
      \<lparr>URL = ''/about'', IP = [8, 8, 8, 8]\<rparr>]"

text \<open>
  A \<^verbatim>\<open>History\<close> whose blacklist is a table that holds 1.1.1.1, to run the loop body
  of the command on a blacklist that is not empty.
\<close>

definition exampleHistory :: History where
  "exampleHistory =
     \<lparr>h_options = HistoryOptions.truncate exampleOptions,
      h_data = [''8.8.8.8'' \<mapsto> [\<lparr>Timestamp = 3960, Count = 42, App = 40, Other = 2\<rparr>],
                ''1.1.1.1'' \<mapsto> [\<lparr>Timestamp = 3900, Count = 60, App = 10, Other = 50\<rparr>]],
      h_blacklist = Some [''1.1.1.1'' \<mapsto> True],
      h_currentSlot = 3960\<rparr>"




text \<open>
  A run of an \<^verbatim>\<open>IPHistory\<close> with a window of 3600, slots of 60 and sweeps every 10:
  8.8.8.8 sends a request in the slot 360 and one in the slot 420, and the clock stores
  the slot of the instant 4015.
\<close>

definition exampleSweepEvents :: "ihEvent list" where
  "exampleSweepEvents =
     [Clock 365, Receive \<lparr>URL = ''/'', IP = [8, 8, 8, 8]\<rparr>,
      Clock 425, Receive \<lparr>URL = ''/logo.png'', IP = [8, 8, 8, 8]\<rparr>,
      Clock 4015]"

definition exampleSweepHistory :: IPHistory where
  "exampleSweepHistory = ihRun exampleLib (NewIPHistory exampleOptions) exampleSweepEvents"

text \<open>
  A run of a blacklist with a time to live of 50 and sweeps every 10 that are each 5
  late: after \<^verbatim>\<open>Set\<close> at the instant 12, the sweeps run at 15, 30, 45, 60, 75 and 90,
  and \<^verbatim>\<open>Set\<close> is called once more for the same address at 40.
\<close>

definition exampleBlacklistEvents :: "blEvent list" where
  "exampleBlacklistEvents =
     [ExpireAt 15, ExpireAt 30, SetAt 40 [8, 8, 8, 8], ExpireAt 45, ExpireAt 60, ExpireAt 75,
      ExpireAt 90]"

section \<open>Properties of the asset pattern\<close>

lemma set_rmatch_word_re: "set (rmatch (word_re p) s) = {v. s = p @ v}"
proof (induction p arbitrary: s)
  case Nil
  show ?case by auto
next
  case (Cons c p)
  show ?case
  proof (cases s)
    case Nil
    then show ?thesis by simp
  next
    case (Cons d t)
    then show ?thesis using Cons.IH [of t] by auto
  qed
qed

lemma rmatch_word_re_iff: "rmatch (word_re p) s \<noteq> [] \<longleftrightarrow> (\<exists>v. s = p @ v)"
proof -
  have "rmatch (word_re p) s \<noteq> [] \<longleftrightarrow> set (rmatch (word_re p) s) \<noteq> {}"
    by simp
  also have "\<dots> \<longleftrightarrow> (\<exists>v. s = p @ v)"
    unfolding set_rmatch_word_re by blast
  finally show ?thesis .
qed

lemma MatchString_iff: "MatchString r s \<longleftrightarrow> (\<exists>u t. s = u @ t \<and> rmatch r t \<noteq> [])"
proof (induction s)
  case Nil
  show ?case by simp
next
  case (Cons c s)
  show ?case
  proof
    assume "MatchString r (c # s)"
    then consider "rmatch r (c # s) \<noteq> []" | "MatchString r s" by auto
    then show "\<exists>u t. c # s = u @ t \<and> rmatch r t \<noteq> []"
    proof cases
      case 1
      then have "c # s = [] @ (c # s) \<and> rmatch r (c # s) \<noteq> []" by simp
      then show ?thesis by blast
    next
      case 2
      then obtain u t where "s = u @ t" "rmatch r t \<noteq> []" using Cons.IH by blast
      then have "c # s = (c # u) @ t \<and> rmatch r t \<noteq> []" by simp
      then show ?thesis by blast
    qed
  next
    assume "\<exists>u t. c # s = u @ t \<and> rmatch r t \<noteq> []"
    then obtain u t where ut: "c # s = u @ t" "rmatch r t \<noteq> []" by blast
    show "MatchString r (c # s)"
    proof (cases u)
      case Nil
      then have "rmatch r (c # s) \<noteq> []" using ut by simp
      then show ?thesis by simp
    next
      case (Cons d u')
      then have "s = u' @ t" using ut by simp
      then show ?thesis using ut Cons.IH by auto
    qed
  qed
qed

lemma rmatch_asset: "rmatch assetRegexp s \<noteq> [] \<longleftrightarrow>
  (\<exists>v. s = ''.jpg'' @ v) \<or> (\<exists>v. s = ''.png'' @ v) \<or> (\<exists>v. s = ''.css'' @ v) \<or>
  (\<exists>v. s = ''.js'' @ v) \<or> (\<exists>v. s = ''.gif'' @ v) \<or> (\<exists>v. s = ''.ico'' @ v)"
proof (cases s)
  case Nil
  then show ?thesis by (simp add: assetRegexp_def)
next
  case (Cons d t)
  have "rmatch assetRegexp (d # t) \<noteq> [] \<longleftrightarrow> d = CHR ''.'' \<and>
     (rmatch (word_re ''jpg'') t \<noteq> [] \<or> rmatch (word_re ''png'') t \<noteq> [] \<or>
      rmatch (word_re ''css'') t \<noteq> [] \<or> rmatch (word_re ''js'') t \<noteq> [] \<or>
      rmatch (word_re ''gif'') t \<noteq> [] \<or> rmatch (word_re ''ico'') t \<noteq> [])"
    unfolding assetRegexp_def rmatch.simps by simp
  then show ?thesis unfolding Cons rmatch_word_re_iff by auto
qed

text \<open>
  Claim C9. The classification is a function of the URL alone, defined for every string,
  the empty one included: a request counts as an asset request if and only if its URL
  contains, at any position, one of the words \<^verbatim>\<open>.jpg\<close>, \<^verbatim>\<open>.png\<close>, \<^verbatim>\<open>.css\<close>,
  \<^verbatim>\<open>.js\<close>, \<^verbatim>\<open>.gif\<close>, \<^verbatim>\<open>.ico\<close>, compared byte by byte (so in the same case); it
  counts as an application request otherwise.
\<close>

theorem asset_classifier:
  "isAsset url \<longleftrightarrow>
     (\<exists>u v. url = u @ ''.jpg'' @ v) \<or> (\<exists>u v. url = u @ ''.png'' @ v) \<or>
     (\<exists>u v. url = u @ ''.css'' @ v) \<or> (\<exists>u v. url = u @ ''.js'' @ v) \<or>
     (\<exists>u v. url = u @ ''.gif'' @ v) \<or> (\<exists>u v. url = u @ ''.ico'' @ v)"
  unfolding isAsset_def MatchString_iff rmatch_asset by blast

text \<open>The pattern is case sensitive and is not tied to the end of the URL.\<close>

lemma asset_examples:
  "\<not> isAsset []" "\<not> isAsset ''/logo.JPG''" "isAsset ''/style.css?v=2''"
  "isAsset ''/app.json''" "\<not> isAsset ''/index.html''"
  by (simp_all add: isAsset_def assetRegexp_def)

section \<open>Counting requests\<close>

lemma process_currentSlot: "ih_currentSlot (IPHistory_process L r h) = ih_currentSlot h"
  by (simp add: IPHistory_process_def Let_def)

lemma process_oneSlot:
  assumes "oneSlot h key c a b"
  shows "oneSlot (IPHistory_process L r h) key
           (if ipKey L (IP r) = key then c + 1 else c)
           (if ipKey L (IP r) = key \<and> \<not> isAsset (URL r) then a + 1 else a)
           (if ipKey L (IP r) = key \<and> isAsset (URL r) then b + 1 else b)"
  using assms
  by (auto simp: oneSlot_def IPHistory_process_def Let_def pushRequest_def countRequest_def newItem_def)

lemma fold_process_oneSlot:
  "oneSlot h key c a b \<Longrightarrow>
   oneSlot (fold (IPHistory_process L) reqs h) key
     (c + of_nat (appOf L key reqs + assetOf L key reqs))
     (a + of_nat (appOf L key reqs)) (b + of_nat (assetOf L key reqs))"
proof (induction reqs arbitrary: h c a b)
  case Nil
  then show ?case by (simp add: appOf_def assetOf_def)
next
  case (Cons r reqs)
  from process_oneSlot [OF Cons.prems, of L r]
  have "oneSlot (fold (IPHistory_process L) reqs (IPHistory_process L r h)) key
     ((if ipKey L (IP r) = key then c + 1 else c) + of_nat (appOf L key reqs + assetOf L key reqs))
     ((if ipKey L (IP r) = key \<and> \<not> isAsset (URL r) then a + 1 else a) + of_nat (appOf L key reqs))
     ((if ipKey L (IP r) = key \<and> isAsset (URL r) then b + 1 else b) + of_nat (assetOf L key reqs))"
    by (rule Cons.IH)
  then show ?case
    by (auto simp: appOf_def assetOf_def ac_simps)
qed


lemma expireOld_single: "cutoff < Timestamp hi \<Longrightarrow> expireOld cutoff [hi] = [hi]"
  by (simp add: expireOld_def After_def)

lemma expireOld_Nil: "expireOld cutoff [] = []"
  by (simp add: expireOld_def)

text \<open>
  Claim C8. Start from a history in which the address \<open>key\<close> has no list, and let it
  receive any requests while the current slot stays the same; let \<open>n\<close> of them be
  application requests of \<open>key\<close> and \<open>m\<close> asset requests of \<open>key\<close>. With a cutoff
  before the slot, the totals that the trimming and counting loops of \<^verbatim>\<open>calculate\<close>
  compute for \<open>key\<close> are \<open>n + m\<close> and \<open>n\<close>, as \<^verbatim>\<open>uint64\<close> values; they are these
  numbers themselves as long as \<open>n + m\<close> fits 64 bits.
\<close>

theorem totals_one_slot:
  assumes "ih_data h key = None"
    and "cutoff < ih_currentSlot h"
    and "n = length (filter (\<lambda>r. ipKey L (IP r) = key \<and> \<not> isAsset (URL r)) reqs)"
    and "m = length (filter (\<lambda>r. ipKey L (IP r) = key \<and> isAsset (URL r)) reqs)"
    and "h' = fold (IPHistory_process L) reqs h"
  shows "sumRequests 0 0 (expireOld cutoff (case ih_data h' key of None \<Rightarrow> [] | Some l \<Rightarrow> l))
           = (of_nat (n + m), of_nat n) \<and>
         (n + m < 2 ^ 64 \<longrightarrow>
            (case sumRequests 0 0 (expireOld cutoff (case ih_data h' key of None \<Rightarrow> [] | Some l \<Rightarrow> l))
             of (tot, app) \<Rightarrow> unat tot = n + m \<and> unat app = n))"
proof -
  have slot: "ih_currentSlot h' = ih_currentSlot h"
    unfolding assms(5) by (induction reqs arbitrary: h) (simp_all add: process_currentSlot)
  have "oneSlot h key 0 0 0"
    using assms(1) by (simp add: oneSlot_def)
  from fold_process_oneSlot [OF this, of L reqs]
  have one: "oneSlot h' key (of_nat (n + m)) (of_nat n) (of_nat m)"
    by (simp add: assms(3,4,5) appOf_def assetOf_def)
  have eq: "sumRequests 0 0 (expireOld cutoff (case ih_data h' key of None \<Rightarrow> [] | Some l \<Rightarrow> l))
           = (of_nat (n + m), of_nat n)"
    using one assms(2) slot
    by (auto simp: oneSlot_def expireOld_single expireOld_Nil)
  have small: "unat (of_nat k :: uint64) = k" if "k < 2 ^ 64" for k :: nat
    using that by (intro of_nat_inverse [OF refl]) simp
  have "unat (of_nat (n + m) :: uint64) = n + m \<and> unat (of_nat n :: uint64) = n"
    if "n + m < 2 ^ 64"
    using that small [of "n + m"] small [of n] by simp
  with eq show ?thesis by simp
qed


lemma ex_keys:
  "ipKey exampleLib [8, 8, 8, 8] = ''8.8.8.8''" "ipKey exampleLib [1, 1, 1, 1] = ''1.1.1.1''"
  by (simp_all add: ipKey_def exampleLib_def To16_def v4InV6Prefix_def)

lemma ex_assets:
  "\<not> isAsset ''/index.html''" "isAsset ''/logo.png''" "\<not> isAsset ''/''" "\<not> isAsset ''/about''"
  by (simp_all add: isAsset_def assetRegexp_def)

theorem totals_one_slot_witness:
  "ih_data (IPHistory_setTimestamp 125 (NewIPHistory exampleOptions)) ''8.8.8.8'' = None \<and>
   (60 :: int) < ih_currentSlot (IPHistory_setTimestamp 125 (NewIPHistory exampleOptions)) \<and>
   sumRequests 0 0 (expireOld 60
     (case ih_data (fold (IPHistory_process exampleLib) exampleRequests
                     (IPHistory_setTimestamp 125 (NewIPHistory exampleOptions))) ''8.8.8.8''
      of None \<Rightarrow> [] | Some l \<Rightarrow> l)) = (3, 2)"
proof -
  let ?h = "IPHistory_setTimestamp 125 (NewIPHistory exampleOptions)"
  have a: "ih_data ?h ''8.8.8.8'' = None"
    by (simp add: IPHistory_setTimestamp_def NewIPHistory_def)
  have b: "(60 :: int) < ih_currentSlot ?h"
    by (simp add: IPHistory_setTimestamp_def NewIPHistory_def exampleOptions_def Truncate_def)
  have n: "(2::nat) = length (filter (\<lambda>r. ipKey exampleLib (IP r) = ''8.8.8.8'' \<and> \<not> isAsset (URL r)) exampleRequests)"
    by (simp add: exampleRequests_def ex_keys ex_assets)
  have m: "(1::nat) = length (filter (\<lambda>r. ipKey exampleLib (IP r) = ''8.8.8.8'' \<and> isAsset (URL r)) exampleRequests)"
    by (simp add: exampleRequests_def ex_keys ex_assets)
  from totals_one_slot [OF a b n m refl] a b show ?thesis by simp
qed

section \<open>Ticks of the decision loops\<close>

lemma sumRequests_sum_list:
  "sumRequests tot app l = (tot + sum_list (map Count l), app + sum_list (map App l))"
  by (induction l arbitrary: tot app) (simp_all add: add.assoc)

lemma expireOld_idem: "expireOld cutoff (expireOld cutoff l) = expireOld cutoff l"
proof -
  have "dropWhile P (dropWhile P xs) = dropWhile P xs" for P and xs :: "HistoryItem list"
    by (induction xs) simp_all
  then show ?thesis by (simp add: expireOld_def)
qed

lemma not_blockCondition_zero: "\<not> blockCondition L opts tot 0"
  by (simp add: blockCondition_def)

lemma not_flagged_empty: "expireOld cutoff counts = [] \<Longrightarrow> \<not> flagged L opts cutoff counts"
  by (simp add: flagged_def not_blockCondition_zero)

lemma flagged_expireOld: "flagged L opts cutoff (expireOld cutoff counts) = flagged L opts cutoff counts"
  by (simp add: flagged_def expireOld_idem)

lemma historyIP_eq:
  "historyIP L opts cutoff ip (d, b) =
     (case d ip of
        None \<Rightarrow> Inr (d, b)
      | Some counts \<Rightarrow>
          if flagged L opts cutoff counts
          then (case mapAssign b ip of
                  Inl p \<Rightarrow> Inl p
                | Inr b' \<Rightarrow> Inr (d(ip := if expireOld cutoff counts = [] then None
                                           else Some (expireOld cutoff counts)), b'))
          else Inr (d(ip := if expireOld cutoff counts = [] then None
                            else Some (expireOld cutoff counts)), b))"
  by (auto simp: historyIP_def Let_def sumRequests_sum_list flagged_def
      split: option.splits sum.splits)

lemma historyLoop_nil_map:
  "historyLoop L opts cutoff keys (d, None) =
     (if \<exists>ip\<in>set keys. \<exists>counts. d ip = Some counts \<and> flagged L opts cutoff counts
      then Inl AssignToNilMap
      else Inr (\<lambda>ip. if ip \<in> set keys
                      then (case d ip of None \<Rightarrow> None
                            | Some counts \<Rightarrow> if expireOld cutoff counts = [] then None
                                              else Some (expireOld cutoff counts))
                      else d ip, None))"
proof (induction keys arbitrary: d)
  case Nil
  show ?case by simp
next
  case (Cons k keys)
  show ?case
  proof (cases "d k")
    case None
    then have "historyLoop L opts cutoff (k # keys) (d, None) = historyLoop L opts cutoff keys (d, None)"
      by (simp add: historyIP_eq)
    then show ?thesis
      unfolding Cons.IH using None by (auto simp: fun_eq_iff)
  next
    case (Some counts)
    show ?thesis
    proof (cases "flagged L opts cutoff counts")
      case True
      then show ?thesis using Some by (auto simp: historyIP_eq mapAssign_def)
    next
      case False
      let ?d1 = "d(k := if expireOld cutoff counts = [] then None else Some (expireOld cutoff counts))"
      have step: "historyLoop L opts cutoff (k # keys) (d, None) = historyLoop L opts cutoff keys (?d1, None)"
        using Some False by (simp add: historyIP_eq)
      have same: "(\<exists>c. ?d1 ip = Some c \<and> flagged L opts cutoff c) \<longleftrightarrow>
                  (\<exists>c. d ip = Some c \<and> flagged L opts cutoff c)" for ip
        using Some False by (auto simp: flagged_expireOld not_flagged_empty)
      have ex: "(\<exists>ip\<in>set keys. \<exists>c. ?d1 ip = Some c \<and> flagged L opts cutoff c) \<longleftrightarrow>
                (\<exists>ip\<in>set (k # keys). \<exists>c. d ip = Some c \<and> flagged L opts cutoff c)"
        using same Some False by auto
      have data: "(\<lambda>ip. if ip \<in> set keys
                      then (case ?d1 ip of None \<Rightarrow> None
                            | Some counts \<Rightarrow> if expireOld cutoff counts = [] then None
                                              else Some (expireOld cutoff counts))
                      else ?d1 ip) =
                  (\<lambda>ip. if ip \<in> set (k # keys)
                      then (case d ip of None \<Rightarrow> None
                            | Some counts \<Rightarrow> if expireOld cutoff counts = [] then None
                                              else Some (expireOld cutoff counts))
                      else d ip)"
        using Some by (auto simp: fun_eq_iff expireOld_idem)
      show ?thesis
        unfolding step Cons.IH ex data ..
    qed
  qed
qed

lemma History_calculate_eq:
  "History_calculate L now keys h =
     (if \<exists>ip\<in>set keys. \<exists>counts. h_data h ip = Some counts \<and>
            flagged L (h_options h) (now - Window (h_options h)) counts
      then Inl AssignToNilMap
      else Inr (h\<lparr>h_data := (\<lambda>ip. if ip \<in> set keys
                      then (case h_data h ip of None \<Rightarrow> None
                            | Some counts \<Rightarrow>
                                if expireOld (now - Window (h_options h)) counts = [] then None
                                else Some (expireOld (now - Window (h_options h)) counts))
                      else h_data h ip),
                 h_blacklist := None\<rparr>))"
  by (simp add: History_calculate_def Let_def historyLoop_nil_map)

lemma example_flagged:
  "flagged exampleLib (HistoryOptions.truncate exampleOptions) 400
     [\<lparr>Timestamp = 3960, Count = 42, App = 40, Other = 2\<rparr>]"
  "\<not> flagged exampleLib (HistoryOptions.truncate exampleOptions) 400
     [\<lparr>Timestamp = 3900, Count = 60, App = 10, Other = 50\<rparr>]"
  by (simp_all add: flagged_def expireOld_def After_def blockCondition_def float64_def fdiv_def
      exampleLib_def exampleOptions_def HistoryOptions.truncate_def)

text \<open>
  Claim C10 says that a tick of the history the command constructs replaces the blacklist
  by the set of the addresses that satisfy the condition at that tick. The tick does
  build a new map and stores it in place of the old one, with no time to live; but the
  new map is the nil map of \<^verbatim>\<open>new(Blacklist)\<close>, so the tick panics at the first address
  that satisfies the condition. With the address 8.8.8.8 at 42 requests, 40 of them
  application requests, and a limit of 30, the tick at 4000 ends in the panic instead of
  blacklisting 8.8.8.8.
\<close>

theorem history_tick_panics:
  "h_blacklist (NewHistory (HistoryOptions.truncate exampleOptions)) = None \<and>
   flagged exampleLib (HistoryOptions.truncate exampleOptions) (4000 - 3600)
     [\<lparr>Timestamp = 3960, Count = 42, App = 40, Other = 2\<rparr>] \<and>
   History_calculate exampleLib 4000 [''1.1.1.1'', ''8.8.8.8'']
     (exampleHistory\<lparr>h_blacklist := None\<rparr>) = Inl AssignToNilMap"
  using example_flagged
  by (simp add: History_calculate_eq NewHistory_def exampleHistory_def exampleOptions_def
      HistoryOptions.truncate_def)

text \<open>
  A tick that ends without a panic found no address that satisfies the condition; it
  stores a nil map, so no address is blacklisted after it, whatever the blacklist was.
\<close>

lemma history_tick_without_panic:
  assumes "History_calculate L now keys h = Inr h'"
  shows "h_blacklist h' = None \<and> \<not> History_IsBlacklisted h' ip \<and>
         \<not> (\<exists>k\<in>set keys. \<exists>counts. h_data h k = Some counts \<and>
               flagged L (h_options h) (now - Window (h_options h)) counts)"
  using assms unfolding History_calculate_eq
  by (auto simp: History_IsBlacklisted_def mapHas_def split: if_splits)


lemma calculateIP_options: "ih_options (calculateIP L now cutoff k h) = ih_options h"
  by (simp add: calculateIP_def Let_def split: option.splits prod.splits)




lemma calculateIP_data:
  "ih_data (calculateIP L now cutoff k h) ip =
     (if ip = k then (case ih_data h k of None \<Rightarrow> None
                      | Some counts \<Rightarrow> if expireOld cutoff counts = [] then None
                                        else Some (expireOld cutoff counts))
      else ih_data h ip)"
  by (auto simp: calculateIP_def Let_def sumRequests_sum_list split: option.splits)


lemma fold_calculateIP_options: "ih_options (fold (calculateIP L now cutoff) keys h) = ih_options h"
  by (induction keys arbitrary: h) (simp_all add: calculateIP_options)



lemma fold_calculateIP_data:
  "ih_data (fold (calculateIP L now cutoff) keys h) ip =
     (if ip \<in> set keys then (case ih_data h ip of None \<Rightarrow> None
                      | Some counts \<Rightarrow> if expireOld cutoff counts = [] then None
                                        else Some (expireOld cutoff counts))
      else ih_data h ip)"
proof (induction keys arbitrary: h)
  case Nil
  show ?case by simp
next
  case (Cons k keys)
  show ?case
    by (simp add: Cons.IH calculateIP_data expireOld_idem split: option.splits)
qed



section \<open>Set on an address that is present\<close>

text \<open>
  Claim C6. \<^verbatim>\<open>Set\<close> on an address that is already in the blacklist returns the
  blacklist as it was: the map, the expiry list and every expiry instant are the same.
  A second \<^verbatim>\<open>Set\<close> right after a first one changes nothing, and when the address was
  new, the only entry added to the expiry list is the one of the first call, with the
  instant of the first call plus the time to live.
\<close>

theorem Set_present_unchanged:
  "(Blacklist_IsBlacklisted L bl ip \<longrightarrow> Blacklist_Set L now ip bl = bl) \<and>
   Blacklist_Set L t2 ip (Blacklist_Set L t1 ip bl) = Blacklist_Set L t1 ip bl \<and>
   (\<not> Blacklist_IsBlacklisted L bl ip \<longrightarrow>
      expiry (Blacklist_Set L t2 ip (Blacklist_Set L t1 ip bl)) =
        expiry bl @ [\<lparr>bip_IP = ipKey L ip, Expires = t1 + ttl bl\<rparr>])"
  by (auto simp: Blacklist_IsBlacklisted_def Blacklist_Set_def Let_def)

theorem Set_present_unchanged_witness:
  "Blacklist_IsBlacklisted exampleLib (Blacklist_Set exampleLib 100 [8, 8, 8, 8] (NewBlacklist 50 10)) [8, 8, 8, 8] \<and>
   Blacklist_Set exampleLib 120 [8, 8, 8, 8] (Blacklist_Set exampleLib 100 [8, 8, 8, 8] (NewBlacklist 50 10)) =
     Blacklist_Set exampleLib 100 [8, 8, 8, 8] (NewBlacklist 50 10) \<and>
   \<not> Blacklist_IsBlacklisted exampleLib (NewBlacklist 50 10) [8, 8, 8, 8] \<and>
   expiry (Blacklist_Set exampleLib 120 [8, 8, 8, 8] (Blacklist_Set exampleLib 100 [8, 8, 8, 8] (NewBlacklist 50 10))) =
     [\<lparr>bip_IP = ''8.8.8.8'', Expires = 150\<rparr>]"
proof -
  have a: "Blacklist_IsBlacklisted exampleLib (Blacklist_Set exampleLib 100 [8, 8, 8, 8] (NewBlacklist 50 10)) [8, 8, 8, 8]"
    by (simp add: Blacklist_IsBlacklisted_def Blacklist_Set_def NewBlacklist_def Let_def)
  have b: "\<not> Blacklist_IsBlacklisted exampleLib (NewBlacklist 50 10) [8, 8, 8, 8]"
    by (simp add: Blacklist_IsBlacklisted_def NewBlacklist_def)
  have k: "ipKey exampleLib [8, 8, 8, 8] = ''8.8.8.8''"
    by (simp add: ipKey_def exampleLib_def To16_def v4InV6Prefix_def)
  have t: "ttl (NewBlacklist 50 10) = 50" "expiry (NewBlacklist 50 10) = []"
    by (simp_all add: NewBlacklist_def)
  note T = Set_present_unchanged [of exampleLib "NewBlacklist 50 10" "[8, 8, 8, 8]" 120 120 100]
  from T have e1:
    "Blacklist_Set exampleLib 120 [8, 8, 8, 8] (Blacklist_Set exampleLib 100 [8, 8, 8, 8] (NewBlacklist 50 10)) =
     Blacklist_Set exampleLib 100 [8, 8, 8, 8] (NewBlacklist 50 10)"
    by blast
  from T b have
    "expiry (Blacklist_Set exampleLib 120 [8, 8, 8, 8] (Blacklist_Set exampleLib 100 [8, 8, 8, 8] (NewBlacklist 50 10))) =
     expiry (NewBlacklist 50 10) @
       [\<lparr>bip_IP = ipKey exampleLib [8, 8, 8, 8], Expires = 100 + ttl (NewBlacklist 50 10)\<rparr>]"
    by blast
  then have e2:
    "expiry (Blacklist_Set exampleLib 120 [8, 8, 8, 8] (Blacklist_Set exampleLib 100 [8, 8, 8, 8] (NewBlacklist 50 10))) =
     [\<lparr>bip_IP = ''8.8.8.8'', Expires = 150\<rparr>]"
    unfolding k t by simp
  from a e1 b e2 show ?thesis by blast
qed

section \<open>The command\<close>

lemma ex_private:
  "\<not> IsPrivate NewIP (parseIP exampleLib ''8.8.8.8'')"
  "\<not> IsPrivate NewIP (parseIP exampleLib ''1.1.1.1'')"
  "IsPrivate NewIP (parseIP exampleLib ''192.168.1.1'')"
  by (simp_all add: NewIP_def privateNetworks_def parseIP_def exampleLib_def To16_def To4_def
      v4InV6Prefix_def Contains_def)







lemma ex_split:
  "Split ''justastring'' CHR ''|'' = [''justastring'']"
  "Split ''8.8.8.8|192.168.1.1, 1.1.1.1|/index.html'' CHR ''|'' =
     [''8.8.8.8'', ''192.168.1.1, 1.1.1.1'', ''/index.html'']"
  "Split ''192.168.1.1, 1.1.1.1'' CHR '','' = [''192.168.1.1'', '' 1.1.1.1'']"
  "Split ''8.8.8.8|1.1.1.1|/index.html'' CHR ''|'' = [''8.8.8.8'', ''1.1.1.1'', ''/index.html'']"
  "Split ''1.1.1.1'' CHR '','' = [''1.1.1.1'']"
  by simp_all

lemma ex_trim: "TrimSpace exampleLib '' 1.1.1.1'' = ''1.1.1.1''"
  "TrimSpace exampleLib ''1.1.1.1'' = ''1.1.1.1''"
  by (simp_all add: exampleLib_def)

lemma ex_string:
  "IPString exampleLib (parseIP exampleLib ''1.1.1.1'') = ''1.1.1.1''"
  "IPString exampleLib (parseIP exampleLib ''8.8.8.8'') = ''8.8.8.8''"
  "parseIP exampleLib ''1.1.1.1'' \<noteq> []" "parseIP exampleLib ''8.8.8.8'' \<noteq> []"
  by (simp_all add: parseIP_def exampleLib_def To16_def v4InV6Prefix_def)


text \<open>
  Claim C1 asks that every candidate address of a well-formed line that parses and is
  not private reaches the history as one request. The loop body has no statement that
  sends on \<^verbatim>\<open>history.RequestChannel()\<close> and never reads field 2: on the line
  \<^verbatim>\<open>8.8.8.8|1.1.1.1|/index.html\<close>, with both addresses parsed and public, it writes
  \<^verbatim>\<open>OK\<close> and sends no request.
\<close>

theorem main_line_sends_nothing:
  "candidate exampleLib NewIP ''8.8.8.8'' = [''8.8.8.8''] \<and>
   candidate exampleLib NewIP (TrimSpace exampleLib ''1.1.1.1'') = [''1.1.1.1''] \<and>
   main_line exampleLib NewIP (NewHistory (HistoryOptions.truncate exampleOptions))
     ''8.8.8.8|1.1.1.1|/index.html'' = (''OK'' @ newline, [])"
  using ex_private ex_string
  by (simp add: main_line_def Let_def ex_split ex_trim candidate_def ok_def
      History_IsBlacklisted_def mapHas_def NewHistory_def)







section \<open>Counts that do not overflow, and the ratio\<close>

lemma expireOld_append: "\<exists>old. l = expireOld cutoff l @ old"
proof -
  let ?P = "\<lambda>hi. \<not> After (Timestamp hi) cutoff"
  have "expireOld cutoff l @ rev (takeWhile ?P (rev l)) =
        rev (takeWhile ?P (rev l) @ dropWhile ?P (rev l))"
    unfolding expireOld_def by (simp only: rev_append)
  also have "\<dots> = l"
    by (simp only: takeWhile_dropWhile_id rev_rev_ident)
  finally show ?thesis by metis
qed

lemma countsOK_prefix: "countsOK k (l @ old) \<Longrightarrow> countsOK k l"
  by (simp add: countsOK_def)

lemma countsOK_expireOld: "countsOK k l \<Longrightarrow> countsOK k (expireOld cutoff l)"
  using expireOld_append [of l cutoff] countsOK_prefix by metis

lemma countsOK_mono: "countsOK k l \<Longrightarrow> k \<le> k' \<Longrightarrow> countsOK k' l"
  by (simp add: countsOK_def)

lemma unat_plus_one: "unat (w :: uint64) < k \<Longrightarrow> k < 2 ^ 64 \<Longrightarrow> unat (w + 1) = unat w + 1"
  by (simp add: unat_word_ariths)


lemma countRequest_new:
  "countsOK 1 [countRequest url (newItem slot)]"
  by (simp add: countsOK_def countRequest_def newItem_def)

lemma countRequest_front:
  assumes "countsOK k (front # rest)" and "Suc k < 2 ^ 64"
  shows "countsOK (Suc k) (countRequest url front # rest)"
proof -
  have ok: "unat (Count front) = unat (App front) + unat (Other front)"
    and le: "unat (Count front) + sum_list (map (\<lambda>hi. unat (Count hi)) rest) \<le> k"
    and rest: "list_all (\<lambda>hi. unat (Count hi) = unat (App hi) + unat (Other hi)) rest"
    using assms(1) by (simp_all add: countsOK_def)
  have c: "unat (Count front) < Suc k" using le by simp
  then have a: "unat (App front) < Suc k" and b: "unat (Other front) < Suc k"
    using ok by simp_all
  have "unat (Count front + 1) = unat (Count front) + 1"
    "unat (App front + 1) = unat (App front) + 1"
    "unat (Other front + 1) = unat (Other front) + 1"
    using unat_plus_one [OF c] unat_plus_one [OF a] unat_plus_one [OF b] assms(2) by simp_all
  then show ?thesis
    using ok le rest by (simp add: countsOK_def countRequest_def)
qed

lemma countsOK_pushRequest:
  assumes "countsOK k l" and "Suc k < 2 ^ 64"
  shows "countsOK (Suc k) (pushRequest slot url l)"
proof (cases l)
  case Nil
  then show ?thesis
    using countRequest_new [of url slot] by (simp add: pushRequest_def countsOK_mono)
next
  case (Cons front rest)
  show ?thesis
  proof (cases "Timestamp front \<noteq> slot")
    case True
    have "countsOK (Suc k) (countRequest url (newItem slot) # l)"
      using assms(1) countRequest_new [of url slot] by (simp add: countsOK_def)
    then show ?thesis using True Cons by (simp add: pushRequest_def)
  next
    case False
    then show ?thesis
      using countRequest_front [of k front rest url] assms Cons by (simp add: pushRequest_def)
  qed
qed

lemma countsOK_Nil: "countsOK k []"
  by (simp add: countsOK_def)

lemma dataOK_process:
  assumes "dataOK k h" and "Suc k < 2 ^ 64"
  shows "dataOK (Suc k) (IPHistory_process L req h)"
  unfolding dataOK_def
proof (intro allI impI)
  fix key l
  assume l: "ih_data (IPHistory_process L req h) key = Some l"
  show "countsOK (Suc k) l"
  proof (cases "key = ipKey L (IP req)")
    case True
    let ?old = "case ih_data h key of None \<Rightarrow> [] | Some l \<Rightarrow> l"
    have "countsOK k ?old"
      using assms(1) by (auto simp: dataOK_def countsOK_Nil split: option.splits)
    then have "countsOK (Suc k) (pushRequest (ih_currentSlot h) (URL req) ?old)"
      using assms(2) by (rule countsOK_pushRequest)
    then show ?thesis
      using l True by (simp add: IPHistory_process_def Let_def)
  next
    case False
    then have "ih_data h key = Some l"
      using l by (simp add: IPHistory_process_def Let_def)
    then show ?thesis
      using assms(1) countsOK_mono [of k l "Suc k"] by (simp add: dataOK_def)
  qed
qed

lemma dataOK_setTimestamp: "dataOK k h \<Longrightarrow> dataOK k (IPHistory_setTimestamp now h)"
  by (simp add: dataOK_def IPHistory_setTimestamp_def)

lemma dataOK_calculate: "dataOK k h \<Longrightarrow> dataOK k (IPHistory_calculate L now keys h)"
  unfolding dataOK_def IPHistory_calculate_def Let_def fold_calculateIP_data
  by (auto simp: countsOK_expireOld split: option.splits if_splits)

lemma expireIP_apply:
  "expireIP cutoff k d ip =
     (if ip = k then (case d k of None \<Rightarrow> None
                      | Some counts \<Rightarrow> if expireOld cutoff counts = [] then None
                                        else Some (expireOld cutoff counts))
      else d ip)"
  by (simp add: expireIP_def Let_def split: option.splits)

lemma fold_expireIP:
  "fold (expireIP cutoff) keys d ip =
     (if ip \<in> set keys then (case d ip of None \<Rightarrow> None
                      | Some counts \<Rightarrow> if expireOld cutoff counts = [] then None
                                        else Some (expireOld cutoff counts))
      else d ip)"
proof (induction keys arbitrary: d)
  case Nil
  show ?case by simp
next
  case (Cons k keys)
  have "fold (expireIP cutoff) (k # keys) d ip = fold (expireIP cutoff) keys (expireIP cutoff k d) ip"
    by simp
  also have "\<dots> = (if ip \<in> set keys
      then (case expireIP cutoff k d ip of None \<Rightarrow> None
            | Some counts \<Rightarrow> if expireOld cutoff counts = [] then None
                              else Some (expireOld cutoff counts))
      else expireIP cutoff k d ip)"
    by (rule Cons.IH)
  also have "\<dots> = (if ip \<in> set (k # keys)
      then (case d ip of None \<Rightarrow> None
            | Some counts \<Rightarrow> if expireOld cutoff counts = [] then None
                              else Some (expireOld cutoff counts))
      else d ip)"
    by (simp add: expireIP_apply expireOld_idem split: option.splits)
  finally show ?case .
qed

lemma dataOK_expire: "dataOK k h \<Longrightarrow> dataOK k (IPHistory_expire t0 keys h)"
  unfolding dataOK_def IPHistory_expire_def Let_def
  by (auto simp: fold_expireIP countsOK_expireOld split: option.splits if_splits)


lemma dataOK_step:
  assumes "dataOK k h" and "k + (if isReceive ev then 1 else 0) < 2 ^ 64"
  shows "dataOK (k + (if isReceive ev then 1 else 0)) (ihStep L h ev)"
proof (cases ev)
  case (Receive req)
  then show ?thesis using dataOK_process [of k h L req] assms by simp
next
  case (Clock now)
  then show ?thesis using assms by (simp add: dataOK_setTimestamp)
next
  case (Tick now keys)
  then show ?thesis using assms by (simp add: dataOK_calculate)
next
  case (Sweep t0 keys)
  then show ?thesis using assms by (simp add: dataOK_expire)
qed

lemma dataOK_run:
  "dataOK k h \<Longrightarrow> k + length (filter isReceive evs) < 2 ^ 64 \<Longrightarrow>
   dataOK (k + length (filter isReceive evs)) (ihRun L h evs)"
proof (induction evs arbitrary: k h)
  case Nil
  then show ?case by (simp add: ihRun_def)
next
  case (Cons ev evs)
  let ?k = "k + (if isReceive ev then 1 else 0)"
  have "dataOK ?k (ihStep L h ev)"
    using Cons.prems by (intro dataOK_step) (auto split: if_splits)
  moreover have "?k + length (filter isReceive evs) < 2 ^ 64"
    using Cons.prems(2) by (auto split: if_splits)
  ultimately have "dataOK (?k + length (filter isReceive evs)) (ihRun L (ihStep L h ev) evs)"
    by (rule Cons.IH)
  then show ?case
    by (auto simp: ihRun_def split: if_splits)
qed

lemma dataOK_New: "dataOK 0 (NewIPHistory opts)"
  by (simp add: dataOK_def NewIPHistory_def)

lemma countsOK_sums:
  assumes "countsOK k l" and "k < 2 ^ 64"
  shows "unat (sum_list (map Count l)) = sum_list (map (\<lambda>hi. unat (Count hi)) l) \<and>
         unat (sum_list (map App l)) = sum_list (map (\<lambda>hi. unat (App hi)) l) \<and>
         sum_list (map (\<lambda>hi. unat (App hi)) l) \<le> sum_list (map (\<lambda>hi. unat (Count hi)) l)"
  using assms
proof (induction l arbitrary: k)
  case Nil
  show ?case by simp
next
  case (Cons hi l)
  have ok: "unat (Count hi) = unat (App hi) + unat (Other hi)"
    and le: "unat (Count hi) + sum_list (map (\<lambda>hi. unat (Count hi)) l) \<le> k"
    and rest: "countsOK k l"
    using Cons.prems(1) by (simp_all add: countsOK_def)
  note IH = Cons.IH [OF rest Cons.prems(2)]
  have c: "unat (Count hi + sum_list (map Count l)) = unat (Count hi) + unat (sum_list (map Count l))"
    using IH le Cons.prems(2) by (intro unat_add_lem [THEN iffD1]) simp
  have a: "unat (App hi + sum_list (map App l)) = unat (App hi) + unat (sum_list (map App l))"
    using IH le ok Cons.prems(2) by (intro unat_add_lem [THEN iffD1]) simp
  show ?case using IH c a ok by simp
qed


lemma ihRun_options: "ih_options (ihRun L h evs) = ih_options h"
proof (induction evs arbitrary: h)
  case Nil
  show ?case by (simp add: ihRun_def)
next
  case (Cons ev evs)
  have "ih_options (ihStep L h ev) = ih_options h"
    by (cases ev)
      (simp_all add: IPHistory_process_def IPHistory_setTimestamp_def IPHistory_calculate_def
        IPHistory_expire_def Let_def fold_calculateIP_options)
  then show ?case using Cons.IH [of "ihStep L h ev"] by (simp add: ihRun_def)
qed

text \<open>
  Claim C4. Take any history reached from a new one by fewer than \<open>2 ^ 64\<close> received
  requests, with clock updates, ticks and sweeps in between, and any list in it; let
  \<open>tot\<close> and \<open>app\<close> be the sums of \<^verbatim>\<open>Count\<close> and \<^verbatim>\<open>App\<close> over the items kept by
  the trimming. The rounding to \<^verbatim>\<open>float64\<close> is monotone and leaves 1 as it is. Then,
  when \<open>app\<close> is not zero, the ratio the code computes is a number that is at least 1;
  and when \<^verbatim>\<open>MaxRatio\<close> is below 1, the condition for blacklisting holds if and only if
  \<open>MaxRequests < app\<close>.
\<close>

theorem ratio_at_least_one:
  assumes mono: "\<forall>x y. x \<le> y \<longrightarrow> round64 L x \<le> round64 L y"
    and one: "round64 L 1 = 1"
    and run: "h = ihRun L (NewIPHistory opts) evs"
    and few: "length (filter isReceive evs) < 2 ^ 64"
    and list: "ih_data h key = Some counts"
    and tot: "tot = sum_list (map Count (expireOld cutoff counts))"
    and app: "app = sum_list (map App (expireOld cutoff counts))"
  shows "(app \<noteq> 0 \<longrightarrow> (\<exists>q. fdiv L (float64 L tot) (float64 L app) = Num q \<and> 1 \<le> q)) \<and>
         (fgt (Num 1) (MaxRatio (ih_options h)) \<longrightarrow>
            (blockCondition L (ih_options h) tot app \<longleftrightarrow> MaxRequests (ih_options h) < app))"
proof -
  let ?n = "length (filter isReceive evs)"
  have "dataOK (0 + ?n) (ihRun L (NewIPHistory opts) evs)"
    using few by (intro dataOK_run dataOK_New) simp
  then have "countsOK ?n counts"
    using list run by (simp add: dataOK_def)
  then have "countsOK ?n (expireOld cutoff counts)"
    by (rule countsOK_expireOld)
  from countsOK_sums [OF this few] have le: "unat app \<le> unat tot"
    unfolding tot app by simp
  have ratio: "\<exists>q. fdiv L (float64 L tot) (float64 L app) = Num q \<and> 1 \<le> q" if "app \<noteq> 0"
  proof -
    have "1 \<le> unat app" using that by (simp add: unat_gt_0 Suc_leI)
    then have "(1::real) \<le> real (unat app)" by (metis of_nat_1 of_nat_mono)
    then have b1: "1 \<le> float64 L app"
      using mono one unfolding float64_def by metis
    have "real (unat app) \<le> real (unat tot)" using le by (rule of_nat_mono)
    then have ab: "float64 L app \<le> float64 L tot"
      using mono unfolding float64_def by blast
    have "1 \<le> float64 L tot / float64 L app"
      using b1 ab by (simp add: le_divide_eq)
    then have "1 \<le> round64 L (float64 L tot / float64 L app)"
      using mono one by metis
    moreover have "float64 L app \<noteq> 0" using b1 by simp
    ultimately show ?thesis by (simp add: fdiv_def)
  qed
  have cond: "blockCondition L (ih_options h) tot app \<longleftrightarrow> MaxRequests (ih_options h) < app"
    if r: "fgt (Num 1) (MaxRatio (ih_options h))"
  proof (cases "MaxRequests (ih_options h) < app")
    case False
    then show ?thesis by (simp add: blockCondition_def)
  next
    case True
    then have "app \<noteq> 0" by (auto simp: word_less_nat_alt)
    from ratio [OF this] obtain q
      where q: "fdiv L (float64 L tot) (float64 L app) = Num q" "1 \<le> q" by blast
    have "fgt (Num q) (MaxRatio (ih_options h))"
      using r q(2) by (cases "MaxRatio (ih_options h)") simp_all
    then show ?thesis using True q(1) by (simp add: blockCondition_def)
  qed
  from ratio cond show ?thesis by blast
qed


lemma example_run:
  "ih_data (ihRun exampleLib (NewIPHistory exampleOptions) (Clock 125 # map Receive exampleRequests))
     ''8.8.8.8'' = Some [\<lparr>Timestamp = 120, Count = 3, App = 2, Other = 1\<rparr>]"
  by (simp add: ihRun_def exampleRequests_def IPHistory_process_def IPHistory_setTimestamp_def
      NewIPHistory_def exampleOptions_def Truncate_def Let_def ex_keys ex_assets
      pushRequest_def countRequest_def newItem_def)

theorem ratio_at_least_one_witness:
  "round64 exampleLib 1 = 1 \<and>
   length (filter isReceive (Clock 125 # map Receive exampleRequests)) < 2 ^ 64 \<and>
   ih_data (ihRun exampleLib (NewIPHistory exampleOptions) (Clock 125 # map Receive exampleRequests))
     ''8.8.8.8'' = Some [\<lparr>Timestamp = 120, Count = 3, App = 2, Other = 1\<rparr>] \<and>
   (3 :: uint64) = sum_list (map Count (expireOld 60 [\<lparr>Timestamp = 120, Count = 3, App = 2, Other = 1\<rparr>])) \<and>
   (2 :: uint64) = sum_list (map App (expireOld 60 [\<lparr>Timestamp = 120, Count = 3, App = 2, Other = 1\<rparr>])) \<and>
   fgt (Num 1) (MaxRatio exampleOptions) \<and>
   (\<exists>q. fdiv exampleLib (float64 exampleLib 3) (float64 exampleLib 2) = Num q \<and> 1 \<le> q) \<and>
   (blockCondition exampleLib exampleOptions 3 2 \<longleftrightarrow> MaxRequests exampleOptions < 2)"
proof -
  let ?evs = "Clock 125 # map Receive exampleRequests"
  let ?h = "ihRun exampleLib (NewIPHistory exampleOptions) ?evs"
  let ?l = "[\<lparr>Timestamp = 120, Count = 3, App = 2, Other = 1\<rparr>]"
  have mono: "\<forall>x y. x \<le> y \<longrightarrow> round64 exampleLib x \<le> round64 exampleLib y"
    by (simp add: exampleLib_def)
  have one: "round64 exampleLib 1 = 1"
    by (simp add: exampleLib_def)
  have few: "length (filter isReceive ?evs) < 2 ^ 64"
    by (simp add: exampleRequests_def)
  have tot: "(3 :: uint64) = sum_list (map Count (expireOld 60 ?l))"
    and app: "(2 :: uint64) = sum_list (map App (expireOld 60 ?l))"
    by (simp_all add: expireOld_def After_def)
  have opts: "ih_options ?h = exampleOptions"
    by (simp add: ihRun_options NewIPHistory_def)
  have r: "fgt (Num 1) (MaxRatio exampleOptions)"
    by (simp add: exampleOptions_def)
  from ratio_at_least_one [OF mono one refl few example_run tot app] r
  have "(\<exists>q. fdiv exampleLib (float64 exampleLib 3) (float64 exampleLib 2) = Num q \<and> 1 \<le> q) \<and>
   (blockCondition exampleLib exampleOptions 3 2 \<longleftrightarrow> MaxRequests exampleOptions < 2)"
    unfolding opts by simp
  with one few example_run tot app r show ?thesis by blast
qed

section \<open>Buckets outside the window\<close>

text \<open>
  Claim C7 asks two things of a bucket whose slot is at or before \<open>now - Window\<close>: the
  totals of a decision tick do not sum it, and a sweep that runs at \<open>now\<close> removes it.
  A round of \<^verbatim>\<open>expire\<close> fails the second: its cutoff is read before the wait for the
  timer, so the sweep trims with the cutoff of \<open>ExpireInterval\<close> earlier. In the run
  \<open>exampleSweepEvents\<close>, with a window of 3600 and an interval of 10, the address has
  the buckets of the slots 420 and 360; the round that starts at 4015 sweeps at 4025 and
  keeps the bucket of slot 420, although 420 is at or before 4025 - 3600; a decision
  tick at 4025 drops it (\<open>tick_drops_bucket_outside_window\<close> below).
\<close>

theorem sweep_keeps_bucket_outside_window:
  "ih_data exampleSweepHistory ''8.8.8.8'' =
     Some [\<lparr>Timestamp = 420, Count = 1, App = 0, Other = 1\<rparr>,
           \<lparr>Timestamp = 360, Count = 1, App = 1, Other = 0\<rparr>] \<and>
   sweepTime 4015 exampleSweepHistory = 4025 \<and>
   Window (ih_options exampleSweepHistory) = 3600 \<and>
   ih_data (IPHistory_expire 4015 [''8.8.8.8''] exampleSweepHistory) ''8.8.8.8'' =
     Some [\<lparr>Timestamp = 420, Count = 1, App = 0, Other = 1\<rparr>] \<and>
   (420 :: int) \<le> sweepTime 4015 exampleSweepHistory - Window (ih_options exampleSweepHistory)"
  by (simp add: sweepTime_def exampleSweepHistory_def exampleSweepEvents_def ihRun_def
      NewIPHistory_def NewBlacklist_def exampleOptions_def IPHistory_process_def
      IPHistory_setTimestamp_def Truncate_def pushRequest_def countRequest_def newItem_def
      ex_keys isAsset_def assetRegexp_def IPHistory_expire_def expireIP_def expireOld_def
      After_def Let_def)

lemma tick_drops_bucket_outside_window:
  "ih_data (IPHistory_calculate exampleLib 4025 [''8.8.8.8''] exampleSweepHistory) ''8.8.8.8'' = None"
  by (simp add: exampleSweepHistory_def exampleSweepEvents_def ihRun_def
      NewIPHistory_def NewBlacklist_def exampleOptions_def IPHistory_process_def
      IPHistory_setTimestamp_def Truncate_def pushRequest_def countRequest_def newItem_def
      ex_keys isAsset_def assetRegexp_def calculateIP_data IPHistory_calculate_def
      expireOld_def After_def Let_def)

lemma dropWhile_sorted_filter:
  "sorted_wrt (\<lambda>a b. f a < f b) xs \<Longrightarrow>
   dropWhile (\<lambda>x. \<not> c < f x) xs = filter (\<lambda>x. c < f x) xs" for f :: "'a \<Rightarrow> int"
proof (induction xs)
  case Nil
  show ?case by simp
next
  case (Cons x xs)
  show ?case
  proof (cases "c < f x")
    case True
    then have "\<forall>y\<in>set xs. c < f y" using Cons.prems by auto
    then have "filter (\<lambda>x. c < f x) xs = xs" by simp
    then show ?thesis using True by simp
  next
    case False
    then show ?thesis using Cons by simp
  qed
qed

lemma expireOld_slotOrder:
  assumes "slotOrder l"
  shows "expireOld cutoff l = filter (\<lambda>hi. cutoff < Timestamp hi) l"
proof -
  have "sorted_wrt (\<lambda>a b. Timestamp a < Timestamp b) (rev l)"
    using assms by (simp add: slotOrder_def sorted_wrt_rev)
  then have "dropWhile (\<lambda>hi. \<not> cutoff < Timestamp hi) (rev l) =
             filter (\<lambda>hi. cutoff < Timestamp hi) (rev l)"
    by (rule dropWhile_sorted_filter)
  then show ?thesis by (simp add: expireOld_def After_def rev_filter)
qed


lemma Timestamp_countRequest: "Timestamp (countRequest url hi) = Timestamp hi"
  by (simp add: countRequest_def)

lemma slots_pushRequest:
  assumes "slotOrder l" and "list_all (\<lambda>hi. Timestamp hi \<le> slot) l"
  shows "slotOrder (pushRequest slot url l) \<and>
         list_all (\<lambda>hi. Timestamp hi \<le> slot) (pushRequest slot url l)"
proof (cases l)
  case Nil
  then show ?thesis
    by (simp add: pushRequest_def slotOrder_def Timestamp_countRequest newItem_def)
next
  case (Cons front rest)
  show ?thesis
  proof (cases "Timestamp front \<noteq> slot")
    case True
    have "\<forall>hi\<in>set l. Timestamp hi < slot"
      using assms True Cons by (auto simp: slotOrder_def list_all_iff)
    then show ?thesis
      using assms True Cons
      by (simp add: pushRequest_def slotOrder_def Timestamp_countRequest newItem_def list_all_iff)
  next
    case False
    then show ?thesis
      using assms Cons
      by (simp add: pushRequest_def slotOrder_def Timestamp_countRequest)
  qed
qed

lemma slotOrder_expireOld: "slotOrder l \<Longrightarrow> slotOrder (expireOld cutoff l)"
  using expireOld_append [of l cutoff] by (metis slotOrder_def sorted_wrt_append)

lemma list_all_expireOld: "list_all P l \<Longrightarrow> list_all P (expireOld cutoff l)"
  using expireOld_append [of l cutoff] by (metis list_all_append)

lemma Truncate_mono: "a \<le> b \<Longrightarrow> Truncate a d \<le> Truncate b d"
proof (cases "d \<le> 0")
  case True
  then show "a \<le> b \<Longrightarrow> ?thesis" by (simp add: Truncate_def)
next
  case False
  assume "a \<le> b"
  then have "a div d \<le> b div d" using False by (simp add: zdiv_mono1)
  then have "d * (a div d) \<le> d * (b div d)" using False by (simp add: mult_left_mono)
  moreover have "a - a mod d = d * (a div d)" "b - b mod d = d * (b div d)"
    by (simp_all add: minus_mod_eq_mult_div)
  ultimately show ?thesis using False by (simp add: Truncate_def)
qed

lemma slotsOK_process: "slotsOK h \<Longrightarrow> slotsOK (IPHistory_process L req h)"
  unfolding slotsOK_def
proof (intro allI impI)
  fix key l
  assume ok: "\<forall>key l. ih_data h key = Some l \<longrightarrow>
        slotOrder l \<and> list_all (\<lambda>hi. Timestamp hi \<le> ih_currentSlot h) l"
    and l: "ih_data (IPHistory_process L req h) key = Some l"
  have slot: "ih_currentSlot (IPHistory_process L req h) = ih_currentSlot h"
    by (rule process_currentSlot)
  show "slotOrder l \<and> list_all (\<lambda>hi. Timestamp hi \<le> ih_currentSlot (IPHistory_process L req h)) l"
  proof (cases "key = ipKey L (IP req)")
    case True
    let ?old = "case ih_data h key of None \<Rightarrow> [] | Some l \<Rightarrow> l"
    have "slotOrder ?old \<and> list_all (\<lambda>hi. Timestamp hi \<le> ih_currentSlot h) ?old"
      using ok by (auto simp: slotOrder_def split: option.splits)
    then have "slotOrder (pushRequest (ih_currentSlot h) (URL req) ?old) \<and>
          list_all (\<lambda>hi. Timestamp hi \<le> ih_currentSlot h) (pushRequest (ih_currentSlot h) (URL req) ?old)"
      using slots_pushRequest by blast
    then show ?thesis
      unfolding slot using l True by (simp add: IPHistory_process_def Let_def)
  next
    case False
    then have "ih_data h key = Some l"
      using l by (simp add: IPHistory_process_def Let_def)
    then show ?thesis unfolding slot using ok by blast
  qed
qed

lemma slotsOK_setTimestamp:
  assumes "slotsOK h" and "ih_currentSlot h \<le> Truncate now (TimeSlot (ih_options h))"
  shows "slotsOK (IPHistory_setTimestamp now h)"
  using assms
  by (fastforce simp: slotsOK_def IPHistory_setTimestamp_def list_all_iff)

lemma calculate_currentSlot:
  "ih_currentSlot (IPHistory_calculate L now keys h) = ih_currentSlot h"
proof -
  have "ih_currentSlot (fold (calculateIP L now c) keys g) = ih_currentSlot g" for c g
    by (induction keys arbitrary: g)
      (simp_all add: calculateIP_def Let_def split: option.splits prod.splits)
  then show ?thesis by (simp add: IPHistory_calculate_def Let_def)
qed

lemma slotsOK_calculate: "slotsOK h \<Longrightarrow> slotsOK (IPHistory_calculate L now keys h)"
  unfolding slotsOK_def calculate_currentSlot
  unfolding IPHistory_calculate_def Let_def fold_calculateIP_data
  by (auto split: option.splits if_splits intro: slotOrder_expireOld list_all_expireOld)

lemma slotsOK_expire: "slotsOK h \<Longrightarrow> slotsOK (IPHistory_expire t0 keys h)"
  unfolding slotsOK_def IPHistory_expire_def Let_def
  by (auto simp: fold_expireIP split: option.splits if_splits
      intro: slotOrder_expireOld list_all_expireOld)


lemma setTimestamp_fields:
  "ih_currentSlot (IPHistory_setTimestamp now h) = Truncate now (TimeSlot (ih_options h))"
  "ih_options (IPHistory_setTimestamp now h) = ih_options h"
  by (simp_all add: IPHistory_setTimestamp_def)

lemma expire_currentSlot: "ih_currentSlot (IPHistory_expire t0 keys h) = ih_currentSlot h"
  by (simp add: IPHistory_expire_def Let_def)

lemma process_options: "ih_options (IPHistory_process L req h) = ih_options h"
  by (simp add: IPHistory_process_def Let_def)

lemma slotsOK_run:
  "slotsOK h \<Longrightarrow> sorted (clockTimes evs) \<Longrightarrow>
   list_all (\<lambda>t. ih_currentSlot h \<le> Truncate t (TimeSlot (ih_options h))) (clockTimes evs) \<Longrightarrow>
   slotsOK (ihRun L h evs)"
proof (induction evs arbitrary: h)
  case Nil
  then show ?case by (simp add: ihRun_def)
next
  case (Cons ev evs)
  show ?case
  proof (cases ev)
    case (Receive req)
    have "slotsOK (ihRun L (IPHistory_process L req h) evs)"
      using Cons.prems Receive
      by (intro Cons.IH)
        (simp_all add: slotsOK_process process_currentSlot process_options)
    then show ?thesis using Receive by (simp add: ihRun_def)
  next
    case (Clock now)
    have le: "ih_currentSlot h \<le> Truncate now (TimeSlot (ih_options h))"
      using Cons.prems(3) Clock by simp
    have later: "list_all (\<lambda>t. Truncate now (TimeSlot (ih_options h)) \<le>
                     Truncate t (TimeSlot (ih_options h))) (clockTimes evs)"
      using Cons.prems(2) Clock by (auto simp: list_all_iff Truncate_mono)
    have "slotsOK (ihRun L (IPHistory_setTimestamp now h) evs)"
      using Cons.prems Clock later
      by (intro Cons.IH) (simp_all add: slotsOK_setTimestamp [OF _ le] setTimestamp_fields)
    then show ?thesis using Clock by (simp add: ihRun_def)
  next
    case (Tick now keys)
    have "ih_options (IPHistory_calculate L now keys h) = ih_options h"
      by (simp add: IPHistory_calculate_def Let_def fold_calculateIP_options)
    then have "slotsOK (ihRun L (IPHistory_calculate L now keys h) evs)"
      using Cons.prems Tick
      by (intro Cons.IH) (simp_all add: slotsOK_calculate calculate_currentSlot)
    then show ?thesis using Tick by (simp add: ihRun_def)
  next
    case (Sweep t0 keys)
    have "ih_options (IPHistory_expire t0 keys h) = ih_options h"
      by (simp add: IPHistory_expire_def Let_def)
    then have "slotsOK (ihRun L (IPHistory_expire t0 keys h) evs)"
      using Cons.prems Sweep
      by (intro Cons.IH) (simp_all add: slotsOK_expire expire_currentSlot)
    then show ?thesis using Sweep by (simp add: ihRun_def)
  qed
qed

lemma Truncate_nonneg: "0 \<le> t \<Longrightarrow> 0 \<le> Truncate t d"
proof -
  assume "0 \<le> t"
  then have "Truncate 0 d \<le> Truncate t d" by (rule Truncate_mono)
  moreover have "Truncate 0 d = 0" by (simp add: Truncate_def)
  ultimately show ?thesis by simp
qed

text \<open>
  The trimming loop removes items from the back and stops at the first one after the
  cutoff. In every history reached from a new one while the clock readings never go
  back, the lists are in slot order, so what the loop keeps is exactly the items whose
  slot is after the cutoff: the totals of a tick at \<open>now\<close> sum no bucket at or before
  \<open>now - Window\<close>.
\<close>

theorem trimming_keeps_window:
  assumes "h = ihRun L (NewIPHistory opts) evs"
    and "sorted (0 # clockTimes evs)"
    and "ih_data h key = Some counts"
  shows "expireOld cutoff counts = filter (\<lambda>hi. cutoff < Timestamp hi) counts"
proof -
  have "slotsOK (NewIPHistory opts)"
    by (simp add: slotsOK_def NewIPHistory_def)
  moreover have "sorted (clockTimes evs)" using assms(2) by simp
  moreover have "list_all (\<lambda>t. ih_currentSlot (NewIPHistory opts) \<le>
        Truncate t (TimeSlot (ih_options (NewIPHistory opts)))) (clockTimes evs)"
    using assms(2) by (simp add: NewIPHistory_def list_all_iff Truncate_nonneg)
  ultimately have "slotsOK (ihRun L (NewIPHistory opts) evs)"
    by (rule slotsOK_run)
  then have "slotOrder counts"
    using assms(1,3) by (simp add: slotsOK_def)
  then show ?thesis by (rule expireOld_slotOrder)
qed

theorem trimming_keeps_window_witness:
  "sorted (0 # clockTimes (Clock 125 # map Receive exampleRequests)) \<and>
   ih_data (ihRun exampleLib (NewIPHistory exampleOptions) (Clock 125 # map Receive exampleRequests))
     ''8.8.8.8'' = Some [\<lparr>Timestamp = 120, Count = 3, App = 2, Other = 1\<rparr>] \<and>
   expireOld 120 [\<lparr>Timestamp = 120, Count = 3, App = 2, Other = 1\<rparr>] = []"
proof -
  have s: "sorted (0 # clockTimes (Clock 125 # map Receive exampleRequests))"
    by (simp add: exampleRequests_def)
  from trimming_keeps_window [OF refl s example_run, of 120] s example_run
  show ?thesis by simp
qed

section \<open>The lifetime of a blacklist entry\<close>

lemma expireEntries_eq:
  "expireEntries now d es =
     (\<lambda>k. if k \<in> bip_IP ` set (takeWhile (\<lambda>e. Before (Expires e) now) es) then None else d k,
      dropWhile (\<lambda>e. Before (Expires e) now) es)"
proof (induction es arbitrary: d)
  case Nil
  show ?case by simp
next
  case (Cons e es)
  show ?case by (auto simp: Cons.IH fun_eq_iff)
qed

lemma expire_fields:
  "expiry (Blacklist_expire now bl) = dropWhile (\<lambda>e. Before (Expires e) now) (expiry bl)"
  "bl_data (Blacklist_expire now bl) k =
     (if k \<in> bip_IP ` set (takeWhile (\<lambda>e. Before (Expires e) now) (expiry bl)) then None
      else bl_data bl k)"
  "ttl (Blacklist_expire now bl) = ttl bl"
  "expireInterval (Blacklist_expire now bl) = expireInterval bl"
  by (simp_all add: Blacklist_expire_def expireEntries_eq)

lemma Set_fields:
  "ttl (Blacklist_Set L t ip bl) = ttl bl"
  "expireInterval (Blacklist_Set L t ip bl) = expireInterval bl"
  by (simp_all add: Blacklist_Set_def Let_def)

lemma blInv_New: "blInv T (NewBlacklist t e)"
  by (simp add: blInv_def NewBlacklist_def)

lemma blInv_later: "blInv T bl \<Longrightarrow> T \<le> T' \<Longrightarrow> blInv T' bl"
  by (fastforce simp: blInv_def list_all_iff)

lemma blInv_Set:
  assumes "blInv T bl" and "T \<le> t"
  shows "blInv t (Blacklist_Set L t ip bl)"
proof (cases "bl_data bl (ipKey L ip) \<noteq> None")
  case True
  then have "Blacklist_Set L t ip bl = bl" by (simp add: Blacklist_Set_def Let_def)
  then show ?thesis using assms blInv_later by simp
next
  case False
  then have new: "ipKey L ip \<notin> bip_IP ` set (expiry bl)"
    using assms(1) by (auto simp: blInv_def)
  have le: "\<forall>e\<in>set (expiry bl). Expires e \<le> t + ttl bl"
    using assms by (fastforce simp: blInv_def list_all_iff)
  show ?thesis
    using False new le assms(1)
    by (auto simp: blInv_def Blacklist_Set_def Let_def sorted_append list_all_iff)
qed


lemma blInv_expire:
  assumes "blInv T bl" and "T \<le> t"
  shows "blInv t (Blacklist_expire now bl)"
proof -
  let ?P = "\<lambda>e. Before (Expires e) now"
  define tw where "tw = takeWhile ?P (expiry bl)"
  define dw where "dw = dropWhile ?P (expiry bl)"
  have tw: "takeWhile ?P (expiry bl) = tw" and dw: "dropWhile ?P (expiry bl) = dw"
    by (simp_all add: tw_def dw_def)
  have split: "expiry bl = tw @ dw"
    by (simp add: tw_def dw_def)
  have d: "distinct (map bip_IP (tw @ dw))"
    and m: "dom (bl_data bl) = bip_IP ` set (tw @ dw)"
    and s: "sorted (map Expires (tw @ dw))"
    and b: "list_all (\<lambda>e. Expires e \<le> T + ttl bl) (tw @ dw)"
    using assms(1) unfolding blInv_def split by simp_all
  have d': "distinct (map bip_IP dw)" using d by simp
  have disj: "bip_IP ` set tw \<inter> bip_IP ` set dw = {}"
    using d by simp
  have "dom (bl_data (Blacklist_expire now bl)) = dom (bl_data bl) - bip_IP ` set tw"
    by (auto simp: expire_fields tw dom_def)
  also have "\<dots> = bip_IP ` set dw"
    unfolding m using disj by auto
  finally have dom': "dom (bl_data (Blacklist_expire now bl)) = bip_IP ` set dw" .
  have s': "sorted (map Expires dw)"
    using s by (simp add: sorted_append)
  have "\<forall>e\<in>set dw. Expires e \<le> T + ttl bl"
    using b by (simp add: list_all_iff)
  then have "\<forall>e\<in>set dw. Expires e \<le> t + ttl bl"
    using assms(2) by fastforce
  then have b': "list_all (\<lambda>e. Expires e \<le> t + ttl bl) dw"
    by (simp add: list_all_iff)
  show ?thesis
    unfolding blInv_def expire_fields(1,3) dw using d' dom' s' b' by simp
qed

lemma sorted_takeWhile_mem:
  "sorted (map Expires es) \<Longrightarrow> e \<in> set es \<Longrightarrow> Before (Expires e) now \<Longrightarrow>
   e \<in> set (takeWhile (\<lambda>e. Before (Expires e) now) es)"
proof (induction es)
  case Nil
  then show ?case by simp
next
  case (Cons x es)
  have "Before (Expires x) now"
    using Cons.prems by (auto simp: Before_def)
  then show ?case using Cons by auto
qed

lemma expire_keeps:
  assumes "distinct (map bip_IP (expiry bl))"
    and "e \<in> set (expiry bl)" and "\<not> Before (Expires e) now"
  shows "e \<in> set (expiry (Blacklist_expire now bl)) \<and>
         bl_data (Blacklist_expire now bl) (bip_IP e) = bl_data bl (bip_IP e)"
proof -
  let ?P = "\<lambda>e. Before (Expires e) now"
  have notin: "e \<notin> set (takeWhile ?P (expiry bl))"
    using assms(3) by (auto dest: set_takeWhileD)
  have "set (expiry bl) = set (takeWhile ?P (expiry bl)) \<union> set (dropWhile ?P (expiry bl))"
    by (metis set_append takeWhile_dropWhile_id)
  then have mem: "e \<in> set (dropWhile ?P (expiry bl))"
    using assms(2) notin by blast
  have "bip_IP e \<notin> bip_IP ` set (takeWhile ?P (expiry bl))"
  proof
    assume "bip_IP e \<in> bip_IP ` set (takeWhile ?P (expiry bl))"
    then obtain x where x: "x \<in> set (takeWhile ?P (expiry bl))" "bip_IP x = bip_IP e" by auto
    then have "x \<in> set (expiry bl)" by (auto dest: set_takeWhileD)
    then have "x = e"
      using assms(1,2) x(2) by (simp add: distinct_map inj_on_def)
    then show False using x(1) notin by simp
  qed
  then show ?thesis using mem by (simp add: expire_fields)
qed


lemma Set_expiry_mono: "e \<in> set (expiry bl) \<Longrightarrow> e \<in> set (expiry (Blacklist_Set L t ip bl))"
  by (simp add: Blacklist_Set_def Let_def)

lemma Set_other_key:
  "ipKey L ip \<noteq> key \<Longrightarrow> bl_data (Blacklist_Set L t ip bl) key = bl_data bl key"
  by (simp add: Blacklist_Set_def Let_def)

lemma run_keeps_entry:
  "blInv T bl \<Longrightarrow> e \<in> set (expiry bl) \<Longrightarrow> sorted (T # map eventTime evs) \<Longrightarrow>
   list_all (\<lambda>ev. eventTime ev \<le> Expires e) evs \<Longrightarrow>
   e \<in> set (expiry (blRun L bl evs)) \<and> (\<exists>T'. blInv T' (blRun L bl evs))"
proof (induction evs arbitrary: bl T)
  case Nil
  then show ?case by (auto simp: blRun_def)
next
  case (Cons ev evs)
  have T: "T \<le> eventTime ev" and rest: "sorted (eventTime ev # map eventTime evs)"
    and le: "eventTime ev \<le> Expires e" and les: "list_all (\<lambda>ev. eventTime ev \<le> Expires e) evs"
    using Cons.prems by simp_all
  have "blInv (eventTime ev) (blStep L bl ev) \<and> e \<in> set (expiry (blStep L bl ev))"
  proof (cases ev)
    case (SetAt t ip)
    then show ?thesis
      using blInv_Set [OF Cons.prems(1), of t L ip] T Cons.prems(2) by (simp add: Set_expiry_mono)
  next
    case (ExpireAt t)
    have "distinct (map bip_IP (expiry bl))" using Cons.prems(1) by (simp add: blInv_def)
    moreover have "\<not> Before (Expires e) t" using le ExpireAt by (simp add: Before_def)
    ultimately have "e \<in> set (expiry (Blacklist_expire t bl))"
      using expire_keeps [of bl e t] Cons.prems(2) by simp
    then show ?thesis
      using blInv_expire [OF Cons.prems(1), of t t] T ExpireAt by simp
  qed
  then have "e \<in> set (expiry (blRun L (blStep L bl ev) evs)) \<and>
             (\<exists>T'. blInv T' (blRun L (blStep L bl ev) evs))"
    using rest les by (intro Cons.IH [of "eventTime ev"]) simp_all
  then show ?case by (simp add: blRun_def)
qed

lemma run_tracks_entry:
  "blInv T bl \<Longrightarrow>
   e \<in> set (expiry bl) \<or> (bl_data bl (bip_IP e) = None \<and> Expires e < T) \<Longrightarrow>
   sorted (T # map eventTime evs) \<Longrightarrow>
   list_all (\<lambda>ev. case ev of SetAt t ip \<Rightarrow> ipKey L ip = bip_IP e \<longrightarrow> t \<le> Expires e
                    | ExpireAt t \<Rightarrow> True) evs \<Longrightarrow>
   (\<exists>T'. blInv T' (blRun L bl evs)) \<and>
   (e \<in> set (expiry (blRun L bl evs)) \<or> bl_data (blRun L bl evs) (bip_IP e) = None)"
proof (induction evs arbitrary: bl T)
  case Nil
  then show ?case by (auto simp: blRun_def)
next
  case (Cons ev evs)
  have T: "T \<le> eventTime ev" and rest: "sorted (eventTime ev # map eventTime evs)"
    using Cons.prems(3) by simp_all
  have "blInv (eventTime ev) (blStep L bl ev) \<and>
        (e \<in> set (expiry (blStep L bl ev)) \<or>
         (bl_data (blStep L bl ev) (bip_IP e) = None \<and> Expires e < eventTime ev))"
  proof (cases ev)
    case (SetAt t ip)
    have inv: "blInv t (Blacklist_Set L t ip bl)"
      using blInv_Set [OF Cons.prems(1)] T SetAt by simp
    have "e \<in> set (expiry (Blacklist_Set L t ip bl)) \<or>
         (bl_data (Blacklist_Set L t ip bl) (bip_IP e) = None \<and> Expires e < t)"
    proof (cases "e \<in> set (expiry bl)")
      case True
      then show ?thesis by (simp add: Set_expiry_mono)
    next
      case False
      then have gone: "bl_data bl (bip_IP e) = None" "Expires e < T"
        using Cons.prems(2) by simp_all
      then have "ipKey L ip \<noteq> bip_IP e"
        using Cons.prems(4) SetAt T by auto
      then show ?thesis using gone T SetAt by (simp add: Set_other_key)
    qed
    then show ?thesis using inv SetAt by simp
  next
    case (ExpireAt t)
    have inv: "blInv t (Blacklist_expire t bl)"
      using blInv_expire [OF Cons.prems(1), of t t] T ExpireAt by simp
    have "e \<in> set (expiry (Blacklist_expire t bl)) \<or>
         (bl_data (Blacklist_expire t bl) (bip_IP e) = None \<and> Expires e < t)"
    proof (cases "e \<in> set (expiry bl)")
      case True
      show ?thesis
      proof (cases "Before (Expires e) t")
        case before: True
        have "sorted (map Expires (expiry bl))" using Cons.prems(1) by (simp add: blInv_def)
        then have "e \<in> set (takeWhile (\<lambda>e. Before (Expires e) t) (expiry bl))"
          using True before by (rule sorted_takeWhile_mem)
        then show ?thesis using before by (auto simp: expire_fields Before_def)
      next
        case False
        have "distinct (map bip_IP (expiry bl))" using Cons.prems(1) by (simp add: blInv_def)
        then show ?thesis using expire_keeps [of bl e t] True False by simp
      qed
    next
      case False
      then have "bl_data bl (bip_IP e) = None" "Expires e < T"
        using Cons.prems(2) by simp_all
      then show ?thesis using T ExpireAt by (simp add: expire_fields)
    qed
    then show ?thesis using inv ExpireAt by simp
  qed
  then have "(\<exists>T'. blInv T' (blRun L (blStep L bl ev) evs)) \<and>
   (e \<in> set (expiry (blRun L (blStep L bl ev) evs)) \<or>
    bl_data (blRun L (blStep L bl ev) evs) (bip_IP e) = None)"
    using rest Cons.prems(4) by (intro Cons.IH [of "eventTime ev"]) simp_all
  then show ?case by (simp add: blRun_def)
qed

lemma sweep_removes:
  assumes "blInv T bl" and "e \<in> set (expiry bl) \<or> bl_data bl (bip_IP e) = None"
    and "Expires e < s"
  shows "bl_data (Blacklist_expire s bl) (bip_IP e) = None"
proof (cases "e \<in> set (expiry bl)")
  case True
  have "sorted (map Expires (expiry bl))" using assms(1) by (simp add: blInv_def)
  then have "e \<in> set (takeWhile (\<lambda>e. Before (Expires e) s) (expiry bl))"
    using True assms(3) by (intro sorted_takeWhile_mem) (simp_all add: Before_def)
  then show ?thesis by (auto simp: expire_fields)
next
  case False
  then show ?thesis using assms(2) by (simp add: expire_fields)
qed

lemma run_absent:
  "bl_data bl key = None \<Longrightarrow> Expires_e < T \<Longrightarrow> sorted (T # map eventTime evs) \<Longrightarrow>
   list_all (\<lambda>ev. case ev of SetAt t ip \<Rightarrow> ipKey L ip = key \<longrightarrow> t \<le> Expires_e
                    | ExpireAt t \<Rightarrow> True) evs \<Longrightarrow>
   bl_data (blRun L bl evs) key = None"
proof (induction evs arbitrary: bl T)
  case Nil
  then show ?case by (simp add: blRun_def)
next
  case (Cons ev evs)
  have T: "T \<le> eventTime ev" and rest: "sorted (eventTime ev # map eventTime evs)"
    using Cons.prems(3) by simp_all
  have "bl_data (blStep L bl ev) key = None"
  proof (cases ev)
    case (SetAt t ip)
    then have "ipKey L ip \<noteq> key" using Cons.prems(2,4) T by auto
    then show ?thesis using SetAt Cons.prems(1) by (simp add: Set_other_key)
  next
    case (ExpireAt t)
    then show ?thesis using Cons.prems(1) by (simp add: expire_fields)
  qed
  moreover have "Expires_e < eventTime ev" using Cons.prems(2) T by simp
  ultimately have "bl_data (blRun L (blStep L bl ev) evs) key = None"
    using rest Cons.prems(4) by (intro Cons.IH [of _ "eventTime ev"]) simp_all
  then show ?case by (simp add: blRun_def)
qed

lemma blRun_append: "blRun L bl (xs @ ys) = blRun L (blRun L bl xs) ys"
  by (simp add: blRun_def)

lemma run_gone:
  assumes inv: "blInv T bl"
    and mem: "e \<in> set (expiry bl)"
    and sorted: "sorted (T # map eventTime evs)"
    and noset: "list_all (\<lambda>ev. case ev of SetAt t ip \<Rightarrow> ipKey L ip = bip_IP e \<longrightarrow> t \<le> Expires e
                    | ExpireAt t \<Rightarrow> True) evs"
    and sweep: "ExpireAt s \<in> set evs" and late: "Expires e < s"
  shows "bl_data (blRun L bl evs) (bip_IP e) = None"
proof -
  from sweep obtain pre post where split: "evs = pre @ ExpireAt s # post"
    by (auto simp: in_set_conv_decomp)
  have sp: "sorted (T # map eventTime pre)"
    using sorted unfolding split by (simp add: sorted_append)
  have np: "list_all (\<lambda>ev. case ev of SetAt t ip \<Rightarrow> ipKey L ip = bip_IP e \<longrightarrow> t \<le> Expires e
                    | ExpireAt t \<Rightarrow> True) pre"
    and npost: "list_all (\<lambda>ev. case ev of SetAt t ip \<Rightarrow> ipKey L ip = bip_IP e \<longrightarrow> t \<le> Expires e
                    | ExpireAt t \<Rightarrow> True) post"
    using noset unfolding split by simp_all
  from run_tracks_entry [OF inv _ sp np] mem
  obtain T' where "blInv T' (blRun L bl pre)"
    "e \<in> set (expiry (blRun L bl pre)) \<or> bl_data (blRun L bl pre) (bip_IP e) = None"
    by auto
  then have gone: "bl_data (Blacklist_expire s (blRun L bl pre)) (bip_IP e) = None"
    using late by (intro sweep_removes) simp_all
  have spost: "sorted (s # map eventTime post)"
    using sorted unfolding split by (simp add: sorted_append)
  have "bl_data (blRun L (Blacklist_expire s (blRun L bl pre)) post) (bip_IP e) = None"
    using gone late spost npost by (rule run_absent)
  then show ?thesis
    unfolding split by (simp add: blRun_def)
qed

lemma sorted_events_until:
  "sorted (map eventTime evs) \<Longrightarrow> ev \<in> set evs \<Longrightarrow> eventTime ev \<le> t \<Longrightarrow>
   ev \<in> set (takeWhile (\<lambda>ev. eventTime ev \<le> t) evs)"
proof (induction evs)
  case Nil
  then show ?case by simp
next
  case (Cons x evs)
  have "eventTime x \<le> t" using Cons.prems by auto
  then show ?case using Cons by auto
qed

lemma sorted_takeWhile_events:
  "sorted (T # map eventTime evs) \<Longrightarrow> sorted (T # map eventTime (takeWhile P evs))"
  by (induction evs arbitrary: T) auto

lemma expireLoop_first_after:
  "start \<le> e \<Longrightarrow> list_all (\<lambda>d. 0 \<le> d \<and> d \<le> D) delays \<Longrightarrow>
   \<exists>s\<in>set (expireLoop start bl delays). e < s \<Longrightarrow>
   \<exists>s\<in>set (expireLoop start bl delays). e < s \<and> s \<le> e + expireInterval bl + D"
proof (induction delays arbitrary: start)
  case Nil
  then show ?case by simp
next
  case (Cons d delays)
  let ?s = "start + expireInterval bl + d"
  show ?case
  proof (cases "e < ?s")
    case True
    moreover have "?s \<le> e + expireInterval bl + D" using Cons.prems(1,2) by simp
    ultimately show ?thesis by auto
  next
    case False
    then have "?s \<le> e" by simp
    moreover have "list_all (\<lambda>d. 0 \<le> d \<and> d \<le> D) delays" using Cons.prems(2) by simp
    moreover have "\<exists>s\<in>set (expireLoop ?s bl delays). e < s" using Cons.prems(3) False by auto
    ultimately have "\<exists>s\<in>set (expireLoop ?s bl delays). e < s \<and> s \<le> e + expireInterval bl + D"
      by (rule Cons.IH)
    then show ?thesis by auto
  qed
qed

lemma sweepsOf_set: "s \<in> set (sweepsOf evs) \<longleftrightarrow> ExpireAt s \<in> set evs"
  by (induction evs rule: sweepsOf.induct) auto


lemma list_all_takeWhile: "list_all Q evs \<Longrightarrow> list_all Q (takeWhile P evs)"
  by (auto simp: list_all_iff dest: set_takeWhileD)

text \<open>
  Claim C5. Let \<^verbatim>\<open>Set\<close> add an address at the instant \<open>t0\<close> to a blacklist whose
  earlier operations ran no later than \<open>t0\<close>, and let calls of \<^verbatim>\<open>Set\<close> and sweeps
  follow in the order of their instants. At every instant from \<open>t0\<close> to \<open>t0 + ttl\<close>
  the address is blacklisted. From the first sweep that runs after \<open>t0 + ttl\<close> on it is
  not, provided \<^verbatim>\<open>Set\<close> is not called for it later than \<open>t0 + ttl\<close>. When the sweeps
  of the run are those of \<^verbatim>\<open>expireLoop\<close>, each at most \<open>D\<close> late, and the loop is
  still running after \<open>t0 + ttl\<close>, the address is not blacklisted at any instant from
  \<open>t0 + ttl + expireInterval + D\<close> on. The bound of the claim is the case \<open>D = 0\<close>;
  it fails for a loop that is late, as in the run that follows the theorem.
\<close>

theorem blacklist_entry_lifetime:
  assumes "blInv t0 bl"
    and "\<not> Blacklist_IsBlacklisted L bl ip"
    and "sorted (t0 # map eventTime evs)"
  shows "(t0 \<le> t \<and> t \<le> t0 + ttl bl \<longrightarrow>
            Blacklist_IsBlacklisted L (blAt L (Blacklist_Set L t0 ip bl) evs t) ip) \<and>
         (list_all (noSetAfter L ip (t0 + ttl bl)) evs \<and>
          ExpireAt s \<in> set evs \<and> t0 + ttl bl < s \<and> s \<le> t \<longrightarrow>
            \<not> Blacklist_IsBlacklisted L (blAt L (Blacklist_Set L t0 ip bl) evs t) ip) \<and>
         (list_all (noSetAfter L ip (t0 + ttl bl)) evs \<and>
          sweepsOf evs = expireLoop start bl delays \<and> start \<le> t0 + ttl bl \<and>
          list_all (\<lambda>d. 0 \<le> d \<and> d \<le> D) delays \<and>
          (\<exists>s\<in>set (sweepsOf evs). t0 + ttl bl < s) \<and>
          t0 + ttl bl + expireInterval bl + D \<le> t \<longrightarrow>
            \<not> Blacklist_IsBlacklisted L (blAt L (Blacklist_Set L t0 ip bl) evs t) ip)"
proof -
  let ?e = "\<lparr>bip_IP = ipKey L ip, Expires = t0 + ttl bl\<rparr>"
  let ?bl1 = "Blacklist_Set L t0 ip bl"
  let ?P = "takeWhile (\<lambda>ev. eventTime ev \<le> t) evs"
  have inv1: "blInv t0 ?bl1"
    by (rule blInv_Set [OF assms(1)]) simp
  have mem1: "?e \<in> set (expiry ?bl1)"
    using assms(2) by (simp add: Blacklist_Set_def Blacklist_IsBlacklisted_def Let_def)
  have sP: "sorted (t0 # map eventTime ?P)"
    using assms(3) by (rule sorted_takeWhile_events)
  have sE: "sorted (map eventTime evs)" using assms(3) by simp
  have stays: "Blacklist_IsBlacklisted L (blAt L ?bl1 evs t) ip" if "t \<le> t0 + ttl bl"
  proof -
    have "list_all (\<lambda>ev. eventTime ev \<le> Expires ?e) ?P"
      using that by (auto simp: list_all_iff dest: set_takeWhileD)
    from run_keeps_entry [OF inv1 mem1 sP this, of L]
    obtain T' where "?e \<in> set (expiry (blRun L ?bl1 ?P))" "blInv T' (blRun L ?bl1 ?P)"
      by auto
    then have "ipKey L ip \<in> dom (bl_data (blRun L ?bl1 ?P))"
      unfolding blInv_def by force
    then show ?thesis by (auto simp: Blacklist_IsBlacklisted_def blAt_def)
  qed
  have goes: "\<not> Blacklist_IsBlacklisted L (blAt L ?bl1 evs t) ip"
    if no: "list_all (noSetAfter L ip (t0 + ttl bl)) evs"
      and sw: "ExpireAt s \<in> set evs" and late: "t0 + ttl bl < s" and st: "s \<le> t" for s
  proof -
    have "list_all (noSetAfter L ip (t0 + ttl bl)) ?P"
      using no by (rule list_all_takeWhile)
    then have nP: "list_all (\<lambda>ev. case ev of SetAt t' ip' \<Rightarrow> ipKey L ip' = bip_IP ?e \<longrightarrow> t' \<le> Expires ?e
                    | ExpireAt t' \<Rightarrow> True) ?P"
      by (auto simp: list_all_iff split: blEvent.splits)
    have swP: "ExpireAt s \<in> set ?P"
      using sE sw st by (intro sorted_events_until) simp_all
    have "bl_data (blRun L ?bl1 ?P) (bip_IP ?e) = None"
      using inv1 mem1 sP nP swP late by (intro run_gone [where s = s and T = t0]) simp_all
    then show ?thesis by (simp add: Blacklist_IsBlacklisted_def blAt_def)
  qed
  have bound: "\<not> Blacklist_IsBlacklisted L (blAt L ?bl1 evs t) ip"
    if no: "list_all (noSetAfter L ip (t0 + ttl bl)) evs"
      and loop: "sweepsOf evs = expireLoop start bl delays"
      and st: "start \<le> t0 + ttl bl"
      and ds: "list_all (\<lambda>d. 0 \<le> d \<and> d \<le> D) delays"
      and live: "\<exists>s\<in>set (sweepsOf evs). t0 + ttl bl < s"
      and t: "t0 + ttl bl + expireInterval bl + D \<le> t"
  proof -
    from expireLoop_first_after [OF st ds, of bl] live loop
    obtain s where "s \<in> set (sweepsOf evs)" "t0 + ttl bl < s" "s \<le> t0 + ttl bl + expireInterval bl + D"
      by auto
    then show ?thesis
      using goes [OF no, of s] t by (simp add: sweepsOf_set)
  qed
  from stays goes bound show ?thesis by blast
qed

theorem blacklist_entry_lifetime_witness:
  "blInv 12 (NewBlacklist 50 10) \<and>
   \<not> Blacklist_IsBlacklisted exampleLib (NewBlacklist 50 10) [8, 8, 8, 8] \<and>
   sorted (12 # map eventTime exampleBlacklistEvents) \<and>
   list_all (noSetAfter exampleLib [8, 8, 8, 8] (12 + ttl (NewBlacklist 50 10))) exampleBlacklistEvents \<and>
   sweepsOf exampleBlacklistEvents = expireLoop 0 (NewBlacklist 50 10) [5, 5, 5, 5, 5, 5] \<and>
   Blacklist_IsBlacklisted exampleLib
     (blAt exampleLib (Blacklist_Set exampleLib 12 [8, 8, 8, 8] (NewBlacklist 50 10))
        exampleBlacklistEvents 62) [8, 8, 8, 8] \<and>
   \<not> Blacklist_IsBlacklisted exampleLib
     (blAt exampleLib (Blacklist_Set exampleLib 12 [8, 8, 8, 8] (NewBlacklist 50 10))
        exampleBlacklistEvents 75) [8, 8, 8, 8] \<and>
   \<not> Blacklist_IsBlacklisted exampleLib
     (blAt exampleLib (Blacklist_Set exampleLib 12 [8, 8, 8, 8] (NewBlacklist 50 10))
        exampleBlacklistEvents 77) [8, 8, 8, 8]"
proof -
  let ?bl = "NewBlacklist 50 10"
  have i: "blInv 12 ?bl" by (rule blInv_New)
  have n: "\<not> Blacklist_IsBlacklisted exampleLib ?bl [8, 8, 8, 8]"
    by (simp add: Blacklist_IsBlacklisted_def NewBlacklist_def)
  have s: "sorted (12 # map eventTime exampleBlacklistEvents)"
    by (simp add: exampleBlacklistEvents_def)
  have f: "ttl ?bl = 50" "expireInterval ?bl = 10"
    by (simp_all add: NewBlacklist_def)
  have no: "list_all (noSetAfter exampleLib [8, 8, 8, 8] (12 + ttl ?bl)) exampleBlacklistEvents"
    by (simp add: f exampleBlacklistEvents_def)
  have loop: "sweepsOf exampleBlacklistEvents = expireLoop 0 ?bl [5, 5, 5, 5, 5, 5]"
    by (simp add: f exampleBlacklistEvents_def)
  have sw: "ExpireAt 75 \<in> set exampleBlacklistEvents"
    by (simp add: exampleBlacklistEvents_def)
  have live: "\<exists>s\<in>set (sweepsOf exampleBlacklistEvents). 12 + ttl ?bl < s"
    by (simp add: f exampleBlacklistEvents_def)
  have ds: "list_all (\<lambda>d. 0 \<le> d \<and> d \<le> (5::int)) [5, 5, 5, 5, 5, 5]" by simp
  from blacklist_entry_lifetime [OF i n s, of 62] have c1:
    "Blacklist_IsBlacklisted exampleLib
       (blAt exampleLib (Blacklist_Set exampleLib 12 [8, 8, 8, 8] ?bl) exampleBlacklistEvents 62)
       [8, 8, 8, 8]"
    by (simp add: f)
  from blacklist_entry_lifetime [OF i n s, of 75 75] no sw have c2:
    "\<not> Blacklist_IsBlacklisted exampleLib
       (blAt exampleLib (Blacklist_Set exampleLib 12 [8, 8, 8, 8] ?bl) exampleBlacklistEvents 75)
       [8, 8, 8, 8]"
    by (simp add: f)
  from blacklist_entry_lifetime [OF i n s, of 77 _ 0 "[5, 5, 5, 5, 5, 5]" 5] no loop live ds have c3:
    "\<not> Blacklist_IsBlacklisted exampleLib
       (blAt exampleLib (Blacklist_Set exampleLib 12 [8, 8, 8, 8] ?bl) exampleBlacklistEvents 77)
       [8, 8, 8, 8]"
    by (simp add: f)
  from i n s no loop c1 c2 c3 show ?thesis by blast
qed

text \<open>
  The claim's bound fails in the run \<open>exampleBlacklistEvents\<close>, whose sweeps are those
  of \<^verbatim>\<open>expireLoop\<close> with every round 5 late: the address set at 12 expires at 62, the
  sweep at 60 keeps it and the next sweep runs at 75, so at 12 + 50 + 10 it is still
  blacklisted.
\<close>

theorem blacklist_bound_counterexample:
  "sorted (12 # map eventTime exampleBlacklistEvents) \<and>
   list_all (noSetAfter exampleLib [8, 8, 8, 8] (12 + 50)) exampleBlacklistEvents \<and>
   sweepsOf exampleBlacklistEvents = expireLoop 0 (NewBlacklist 50 10) [5, 5, 5, 5, 5, 5] \<and>
   Blacklist_IsBlacklisted exampleLib
     (blAt exampleLib (Blacklist_Set exampleLib 12 [8, 8, 8, 8] (NewBlacklist 50 10))
        exampleBlacklistEvents (12 + 50 + 10)) [8, 8, 8, 8]"
  by (auto simp: exampleBlacklistEvents_def blAt_def blRun_def Blacklist_Set_def
      Blacklist_expire_def Blacklist_IsBlacklisted_def NewBlacklist_def Let_def ex_keys
      Before_def)


section \<open>The decision tick of IPHistory\<close>








end
